theory Spec2Isabelle
  imports Main "HOL-Library.Word"
begin

section \<open>The pixel transparency converter (assets/test.py)\<close>

subsection \<open>Pixels and images\<close>

text \<open>
  A channel is one byte. After \<^verbatim>\<open>convert("RGBA")\<close> every pixel that
  \<^verbatim>\<open>getdata()\<close> yields is a 4-tuple \<open>(R, G, B, A)\<close>; a pixel of the file as it was
  decoded may lack the alpha channel.
\<close>

type_synonym channel = "8 word"
type_synonym pixel = "channel \<times> channel \<times> channel \<times> channel"
type_synonym src_pixel = "channel \<times> channel \<times> channel \<times> channel option"

record 'p image =
  img_size :: "nat \<times> nat"
  img_data :: "'p list"

text \<open>
  Modelled from the spec: the image library's \<^verbatim>\<open>convert("RGBA")\<close> is not part of the
  repository. The spec says of it: if the source image has no alpha channel, a fully
  opaque one (alpha = 255) is synthesised; the colour channels and an alpha that is
  present are kept.
\<close>

fun convert_RGBA_pixel :: "src_pixel \<Rightarrow> pixel" where
  "convert_RGBA_pixel (r, g, b, a) = (r, g, b, (case a of None \<Rightarrow> 255 | Some a' \<Rightarrow> a'))"

definition convert_RGBA :: "src_pixel image \<Rightarrow> pixel image" where
  "convert_RGBA img = \<lparr>img_size = img_size img, img_data = map convert_RGBA_pixel (img_data img)\<rparr>"

text \<open>
  Lines 19 to 25 of test.py: the loop over \<^verbatim>\<open>datas\<close> that appends to \<^verbatim>\<open>new_data\<close>.
  The second argument is \<^verbatim>\<open>new_data\<close> as built so far.
  \<^verbatim>\<open>
  new_data = []
  for item in datas:
      if item[0] == 255 and item[1] == 255 and item[2] == 255:
          new_data.append((255, 255, 255, 0))
      else:
          new_data.append(item)
  \<close>
\<close>

fun scan_pixels :: "pixel list \<Rightarrow> pixel list \<Rightarrow> pixel list" where
  "scan_pixels [] new_data = new_data"
| "scan_pixels (item # datas) new_data =
     (case item of (i0, i1, i2, i3) \<Rightarrow>
        if i0 = 255 \<and> i1 = 255 \<and> i2 = 255
        then scan_pixels datas (new_data @ [(255, 255, 255, 0)])
        else scan_pixels datas (new_data @ [item]))"

text \<open>Line 27, \<^verbatim>\<open>img.putdata(new_data)\<close>: the pixel data is replaced, the size stays.\<close>

definition putdata :: "'p image \<Rightarrow> 'p list \<Rightarrow> 'p image" where
  "putdata img new_data = img\<lparr>img_data := new_data\<rparr>"

subsection \<open>Paths: \<^verbatim>\<open>os.path.splitext\<close>\<close>

text \<open>
  \<^verbatim>\<open>os.path.splitext\<close> belongs to Python's standard library, not to the repository. It is
  modelled after the POSIX implementation (\<^verbatim>\<open>posixpath.splitext\<close>, which calls
  \<^verbatim>\<open>genericpath._splitext(p, '/', None, '.')\<close>):
  \<^verbatim>\<open>
  sepIndex = p.rfind(sep)
  dotIndex = p.rfind(extsep)
  if dotIndex > sepIndex:
      # skip all leading dots
      filenameIndex = sepIndex + 1
      while filenameIndex < dotIndex:
          if p[filenameIndex:filenameIndex+1] != extsep:
              return p[:dotIndex], p[dotIndex:]
          filenameIndex += 1
  return p, p[:0]
  \<close>
  \<^verbatim>\<open>str.rfind\<close> gives the highest index at which the character occurs, and \<open>-1\<close> when it
  does not occur.
\<close>

fun rfind :: "char \<Rightarrow> string \<Rightarrow> int" where
  "rfind c [] = - 1"
| "rfind c (x # xs) =
     (let r = rfind c xs in if 0 \<le> r then r + 1 else if x = c then 0 else - 1)"

function splitext_scan :: "string \<Rightarrow> int \<Rightarrow> int \<Rightarrow> (string \<times> string) option" where
  "splitext_scan p filenameIndex dotIndex =
     (if filenameIndex < dotIndex
      then (if take 1 (drop (nat filenameIndex) p) \<noteq> ''.''
            then Some (take (nat dotIndex) p, drop (nat dotIndex) p)
            else splitext_scan p (filenameIndex + 1) dotIndex)
      else None)"
  by pat_completeness auto
termination
  by (relation "measure (\<lambda>(p, filenameIndex, dotIndex). nat (dotIndex - filenameIndex))") auto

declare splitext_scan.simps [simp del]

definition splitext :: "string \<Rightarrow> string \<times> string" where
  "splitext p =
     (let sepIndex = rfind (CHR ''/'') p;
          dotIndex = rfind (CHR ''.'') p
      in if dotIndex > sepIndex
         then (case splitext_scan p (sepIndex + 1) dotIndex of
                 Some r \<Rightarrow> r
               | None \<Rightarrow> (p, []))
         else (p, []))"

text \<open>
  \<^verbatim>\<open>posixpath.dirname\<close>, the directory of a path, used to say where the output lands:
  \<^verbatim>\<open>
  i = p.rfind(sep) + 1
  head = p[:i]
  if head and head != sep*len(head):
      head = head.rstrip(sep)
  return head
  \<close>
\<close>

definition rstrip :: "char \<Rightarrow> string \<Rightarrow> string" where
  "rstrip c s = rev (dropWhile (\<lambda>x. x = c) (rev s))"

definition dirname :: "string \<Rightarrow> string" where
  "dirname p =
     (let i = rfind (CHR ''/'') p + 1;
          head = take (nat i) p
      in if head \<noteq> [] \<and> head \<noteq> replicate (length head) (CHR ''/'')
         then rstrip (CHR ''/'') head
         else head)"

subsection \<open>The world the converter runs in\<close>

text \<open>
  The content of a file is kept abstract (\<open>'f\<close>). The image library is a parameter: what
  \<^verbatim>\<open>Image.open\<close> decodes a content to (\<open>None\<close> when it cannot identify an image), and the
  content that saving an RGBA image as PNG produces.
\<close>

record 'f pil =
  decode :: "'f \<Rightarrow> src_pixel image option"
  encode_png :: "pixel image \<Rightarrow> 'f"

text \<open>
  One constructor for each \<^verbatim>\<open>print\<close> of test.py, with the value it formats:
  \<open>MissingPillow\<close> (line 7), \<open>NotFound input_path\<close> (line 12),
  \<open>Processing input_path\<close> (line 15), \<open>Saved output_path\<close> (line 35),
  \<open>Rule\<close> (lines 37 and 41), \<open>Ready\<close> (line 38), \<open>HowToCall\<close> (line 39) and
  \<open>Example\<close> (line 40).
\<close>

datatype line =
  MissingPillow | NotFound string | Processing string | Saved string
  | Rule | Ready | HowToCall | Example

datatype exn = UnidentifiedImageError string | OSError string | NameError string

text \<open>
  The world: the files by path, the paths that can be opened for writing, the lines
  printed so far, and the paths handed to \<^verbatim>\<open>Image.open\<close> so far.
\<close>

record 'f world =
  files :: "string \<rightharpoonup> 'f"
  writable :: "string \<Rightarrow> bool"
  console :: "line list"
  opened :: "string list"

definition print :: "line \<Rightarrow> 'f world \<Rightarrow> 'f world" where
  "print l w = w\<lparr>console := console w @ [l]\<rparr>"

definition exists :: "'f world \<Rightarrow> string \<Rightarrow> bool" where
  "exists w path = (files w path \<noteq> None)"

text \<open>
  \<^verbatim>\<open>Image.open(path)\<close> raises when the file cannot be read or is not an image.
\<close>

definition Image_open ::
  "'f pil \<Rightarrow> string \<Rightarrow> 'f world \<Rightarrow> (exn + src_pixel image) \<times> 'f world" where
  "Image_open pil path w =
     (let w' = w\<lparr>opened := opened w @ [path]\<rparr>
      in case files w path of
           None \<Rightarrow> (Inl (OSError path), w')
         | Some f \<Rightarrow>
             (case decode pil f of
                None \<Rightarrow> (Inl (UnidentifiedImageError path), w')
              | Some img \<Rightarrow> (Inr img, w')))"

text \<open>
  \<^verbatim>\<open>img.save(path, "PNG")\<close> raises when the path cannot be opened for writing, and
  then leaves the files as they were; otherwise the file at the path holds the encoded
  image afterwards.
\<close>

definition save :: "'f pil \<Rightarrow> pixel image \<Rightarrow> string \<Rightarrow> 'f world \<Rightarrow> (exn + unit) \<times> 'f world" where
  "save pil img path w =
     (if writable w path
      then (Inr (), w\<lparr>files := (files w)(path \<mapsto> encode_png pil img)\<rparr>)
      else (Inl (OSError path), w))"

subsection \<open>\<^verbatim>\<open>white_to_transparent\<close>\<close>

text \<open>
  \<^verbatim>\<open>not output_path\<close>: the default \<^verbatim>\<open>None\<close> and the empty string are false.
\<close>

fun falsy :: "string option \<Rightarrow> bool" where
  "falsy None = True"
| "falsy (Some s) = (s = [])"

text \<open>Lines 30 to 32: the output path that \<^verbatim>\<open>img.save\<close> receives.\<close>

definition resolve_output_path :: "string \<Rightarrow> string option \<Rightarrow> string" where
  "resolve_output_path input_path output_path =
     (if falsy output_path
      then (case splitext input_path of (f_name, f_ext) \<Rightarrow> f_name @ ''_transparent.png'')
      else the output_path)"

text \<open>
  Lines 9 to 35. The result is \<open>Inr ()\<close> when the function returns and \<open>Inl e\<close> when the
  exception \<open>e\<close> leaves it; the world is the one at that moment.
\<close>

definition white_to_transparent ::
  "'f pil \<Rightarrow> string \<Rightarrow> string option \<Rightarrow> 'f world \<Rightarrow> (exn + unit) \<times> 'f world" where
  "white_to_transparent pil input_path output_path w =
     (if \<not> exists w input_path
      then (Inr (), print (NotFound input_path) w)
      else
        (case Image_open pil input_path (print (Processing input_path) w) of
           (Inl e, w1) \<Rightarrow> (Inl e, w1)
         | (Inr raw, w1) \<Rightarrow>
             (let img = convert_RGBA raw;
                  datas = img_data img;
                  new_data = scan_pixels datas [];
                  img' = putdata img new_data;
                  output_path' = resolve_output_path input_path output_path
              in case save pil img' output_path' w1 of
                   (Inl e, w2) \<Rightarrow> (Inl e, w2)
                 | (Inr u, w2) \<Rightarrow> (Inr (), print (Saved output_path') w2))))"

subsection \<open>The module\<close>

text \<open>
  Lines 4 to 43, run from top to bottom. The argument is the image library when the
  import of line 5 succeeds and \<open>None\<close> when it raises \<^verbatim>\<open>ImportError\<close>. The name
  \<^verbatim>\<open>white_to_transparent\<close> is bound only by the \<^verbatim>\<open>def\<close> in the \<^verbatim>\<open>else\<close> branch; the call
  of line 43 stands after the whole \<^verbatim>\<open>try\<close> statement and looks the name up in either
  case.
\<close>

definition test_py :: "'f pil option \<Rightarrow> 'f world \<Rightarrow> (exn + unit) \<times> 'f world" where
  "test_py PIL w =
     (case (case PIL of
              None \<Rightarrow> (False, print MissingPillow w)
            | Some pil \<Rightarrow>
                (True, print Rule (print Example (print HowToCall (print Ready (print Rule w))))))
      of (bound, w1) \<Rightarrow>
        if bound
        then white_to_transparent (the PIL) ''sidebar-icon.png'' None w1
        else (Inl (NameError ''white_to_transparent''), w1))"

section \<open>The concurrent asset fetcher (assets/tree-sitter/download_wasm.py)\<close>

definition BASE_URL :: string where
  "BASE_URL = ''https://unpkg.com/tree-sitter-wasms@0.1.13/out/''"

definition OUTPUT_DIR :: string where
  "OUTPUT_DIR = ''.''"

definition FILES :: "string list" where
  "FILES =
    [''tree-sitter-bash.wasm'', ''tree-sitter-c.wasm'', ''tree-sitter-c_sharp.wasm'',
     ''tree-sitter-cpp.wasm'', ''tree-sitter-css.wasm'', ''tree-sitter-dart.wasm'',
     ''tree-sitter-elisp.wasm'', ''tree-sitter-elixir.wasm'', ''tree-sitter-elm.wasm'',
     ''tree-sitter-embedded_template.wasm'', ''tree-sitter-go.wasm'', ''tree-sitter-html.wasm'',
     ''tree-sitter-java.wasm'', ''tree-sitter-javascript.wasm'', ''tree-sitter-json.wasm'',
     ''tree-sitter-kotlin.wasm'', ''tree-sitter-lua.wasm'', ''tree-sitter-objc.wasm'',
     ''tree-sitter-ocaml.wasm'', ''tree-sitter-php.wasm'', ''tree-sitter-python.wasm'',
     ''tree-sitter-ql.wasm'', ''tree-sitter-rescript.wasm'', ''tree-sitter-ruby.wasm'',
     ''tree-sitter-rust.wasm'', ''tree-sitter-scala.wasm'', ''tree-sitter-solidity.wasm'',
     ''tree-sitter-swift.wasm'', ''tree-sitter-systemrdl.wasm'', ''tree-sitter-tlaplus.wasm'',
     ''tree-sitter-toml.wasm'', ''tree-sitter-tsx.wasm'', ''tree-sitter-typescript.wasm'',
     ''tree-sitter-vue.wasm'', ''tree-sitter-yaml.wasm'', ''tree-sitter-zig.wasm'']"

subsection \<open>The environment of the fetcher\<close>

text \<open>
  The network, the file system calls and the directory creation are outside the
  program; each call either raises, with an error text, or succeeds. The environment
  fixes what each call does:
  \<^item> \<open>urlopen url\<close>: \<^verbatim>\<open>urllib.request.urlopen(req)\<close> raises (\<open>Inl\<close>) or gives a response,
    whose \<^verbatim>\<open>read()\<close> in turn raises or gives the body;
  \<^item> \<open>open_wb path\<close>: the error with which \<^verbatim>\<open>open(path, 'wb')\<close> raises, if it does;
  \<^item> \<open>write_bytes path data\<close>: the error with which writing \<open>data\<close> (or flushing it when
    the file is closed) raises, if it does, and how many bytes reached the file before;
  \<^item> \<open>makedirs path\<close>: the error with which \<^verbatim>\<open>os.makedirs(path)\<close> raises, if it does.
\<close>

type_synonym bytes = "8 word list"

datatype response = Response (read: "string + bytes")

record env =
  urlopen :: "string \<Rightarrow> string + response"
  open_wb :: "string \<Rightarrow> string option"
  write_bytes :: "string \<Rightarrow> bytes \<Rightarrow> (string \<times> nat) option"
  makedirs :: "string \<Rightarrow> string option"

text \<open>
  One constructor for each \<^verbatim>\<open>print\<close> of download_wasm.py, with the values it formats:
  \<open>Created dir\<close> (line 77), \<open>Downloading n url\<close> (line 79), \<open>Starting filename\<close>
  (line 55), \<open>Success filename\<close> (line 67), \<open>Failed filename e\<close> (line 70) and
  \<open>AllCompleted\<close> (line 85).
\<close>

datatype report =
  Created string | Downloading nat string | Starting string | Success string
  | Failed string string | AllCompleted

text \<open>
  What the program changes: the files by path, the directories, the lines printed so
  far, and the URLs handed to \<^verbatim>\<open>urlopen\<close> so far.
\<close>

record os_state =
  disk :: "string \<rightharpoonup> bytes"
  dirs :: "string set"
  stdout :: "report list"
  requests :: "string list"

definition emit :: "report \<Rightarrow> os_state \<Rightarrow> os_state" where
  "emit l w = w\<lparr>stdout := stdout w @ [l]\<rparr>"

definition path_exists :: "os_state \<Rightarrow> string \<Rightarrow> bool" where
  "path_exists w path = (path \<in> dirs w \<or> disk w path \<noteq> None)"

text \<open>
  \<^verbatim>\<open>os.path.join(a, b)\<close> with two arguments, after \<^verbatim>\<open>posixpath.join\<close>:
  \<^verbatim>\<open>
  if b.startswith(sep): path = b
  elif not path or path.endswith(sep): path += b
  else: path += sep + b
  \<close>
\<close>

definition join :: "string \<Rightarrow> string \<Rightarrow> string" where
  "join a b =
     (if take 1 b = ''/'' then b
      else if a = [] \<or> last a = CHR ''/'' then a @ b
      else a @ ''/'' @ b)"

subsection \<open>\<^verbatim>\<open>download_file\<close>\<close>

text \<open>
  Lines 55 to 65, the body of the \<^verbatim>\<open>try\<close>. The two context managers of line 63 are
  entered from left to right: the request is made first, then the destination is
  opened for writing, which creates or truncates it, and only then the body is read.
  The result is \<open>Inl e\<close> when the body raises with error text \<open>e\<close>.
\<close>

definition try_body ::
  "env \<Rightarrow> string \<Rightarrow> string \<Rightarrow> string \<Rightarrow> os_state \<Rightarrow> (string + unit) \<times> os_state" where
  "try_body env filename url filepath w =
     (let w1 = emit (Starting filename) w;
          w2 = w1\<lparr>requests := requests w1 @ [url]\<rparr>
      in case urlopen env url of
           Inl e \<Rightarrow> (Inl e, w2)
         | Inr response \<Rightarrow>
             (case open_wb env filepath of
                Some e \<Rightarrow> (Inl e, w2)
              | None \<Rightarrow>
                  (let w3 = w2\<lparr>disk := (disk w2)(filepath \<mapsto> [])\<rparr>
                   in case read response of
                        Inl e \<Rightarrow> (Inl e, w3)
                      | Inr data \<Rightarrow>
                          (case write_bytes env filepath data of
                             Some (e, n) \<Rightarrow> (Inl e, w3\<lparr>disk := (disk w3)(filepath \<mapsto> take n data)\<rparr>)
                           | None \<Rightarrow> (Inr (), w3\<lparr>disk := (disk w3)(filepath \<mapsto> data)\<rparr>)))))"

text \<open>
  Lines 49 to 71. The result is \<open>Inr b\<close> when the function returns \<open>b\<close>; \<open>Inl e\<close> would be
  an exception leaving the function. Lines 51 and 52 stand outside the \<^verbatim>\<open>try\<close>; on
  strings they cannot raise.
\<close>

definition download_file :: "env \<Rightarrow> string \<Rightarrow> os_state \<Rightarrow> (string + bool) \<times> os_state" where
  "download_file env filename w =
     (let url = BASE_URL @ filename;
          filepath = join OUTPUT_DIR filename
      in case try_body env filename url filepath w of
           (Inr u, w') \<Rightarrow> (Inr True, emit (Success filename) w')
         | (Inl e, w') \<Rightarrow> (Inr False, emit (Failed filename e) w'))"

subsection \<open>\<^verbatim>\<open>download_file\<close>, one statement at a time\<close>

text \<open>
  In the pool several calls of \<^verbatim>\<open>download_file\<close> run at once, and their statements
  interleave. A position in the function is where the call stands: before line 55,
  before each of the two context managers of line 63 (the second holds the open
  response), before lines 64, 65 and 67, in the handler before line 70 with the
  caught error, or returned.
\<close>

datatype task =
  AtPrintStart | AtUrlopen | AtOpen response | AtRead response | AtWrite bytes
  | AtPrintSuccess | AtHandler string | Returned bool

fun task_step :: "env \<Rightarrow> string \<Rightarrow> task \<Rightarrow> os_state \<Rightarrow> task \<times> os_state" where
  "task_step env filename AtPrintStart w = (AtUrlopen, emit (Starting filename) w)"
| "task_step env filename AtUrlopen w =
     (let url = BASE_URL @ filename;
          w' = w\<lparr>requests := requests w @ [url]\<rparr>
      in case urlopen env url of
           Inl e \<Rightarrow> (AtHandler e, w')
         | Inr response \<Rightarrow> (AtOpen response, w'))"
| "task_step env filename (AtOpen response) w =
     (let filepath = join OUTPUT_DIR filename
      in case open_wb env filepath of
           Some e \<Rightarrow> (AtHandler e, w)
         | None \<Rightarrow> (AtRead response, w\<lparr>disk := (disk w)(filepath \<mapsto> [])\<rparr>))"
| "task_step env filename (AtRead response) w =
     (case read response of
        Inl e \<Rightarrow> (AtHandler e, w)
      | Inr data \<Rightarrow> (AtWrite data, w))"
| "task_step env filename (AtWrite data) w =
     (let filepath = join OUTPUT_DIR filename
      in case write_bytes env filepath data of
           Some (e, n) \<Rightarrow> (AtHandler e, w\<lparr>disk := (disk w)(filepath \<mapsto> take n data)\<rparr>)
         | None \<Rightarrow> (AtPrintSuccess, w\<lparr>disk := (disk w)(filepath \<mapsto> data)\<rparr>))"
| "task_step env filename AtPrintSuccess w = (Returned True, emit (Success filename) w)"
| "task_step env filename (AtHandler e) w = (Returned False, emit (Failed filename e) w)"
| "task_step env filename (Returned b) w = (Returned b, w)"

text \<open>The number of statements a call at a position has left, at most.\<close>

fun fuel :: "task \<Rightarrow> nat" where
  "fuel AtPrintStart = 6"
| "fuel AtUrlopen = 5"
| "fuel (AtOpen response) = 4"
| "fuel (AtRead response) = 3"
| "fuel (AtWrite data) = 2"
| "fuel AtPrintSuccess = 1"
| "fuel (AtHandler e) = 1"
| "fuel (Returned b) = 0"

text \<open>The rest of a call, run alone from a position to its return.\<close>

function (sequential) finish :: "env \<Rightarrow> string \<Rightarrow> task \<Rightarrow> os_state \<Rightarrow> bool \<times> os_state" where
  "finish env filename (Returned b) w = (b, w)"
| "finish env filename t w =
     (case task_step env filename t w of (t', w') \<Rightarrow> finish env filename t' w')"
  by pat_completeness auto
termination
  by (relation "measure (\<lambda>(env, filename, t, w). fuel t)")
    (auto simp: Let_def split: sum.splits option.splits)

subsection \<open>The pool and \<^verbatim>\<open>main\<close>\<close>

text \<open>
  \<^verbatim>\<open>ThreadPoolExecutor(max_workers=5)\<close> with \<^verbatim>\<open>executor.map(download_file, FILES)\<close>:
  \<^verbatim>\<open>map\<close> submits one work item for every element at once, in order; at most
  \<open>max_workers\<close> worker threads take work items from the head of the queue and run
  them; leaving the \<^verbatim>\<open>with\<close> block waits (\<^verbatim>\<open>shutdown(wait=True)\<close>) until no work item is
  queued or running. The state of the pool: the work items not yet taken, those being
  run with their positions, the resolved ones with their results in the order of
  completion, whether the main thread still waits, and the world.
\<close>

definition max_workers :: nat where
  "max_workers = 5"

datatype driver = Waiting | Finished

record pool =
  queue :: "string list"
  running :: "(string \<times> task) list"
  futures :: "(string \<times> bool) list"
  driver :: driver
  os :: os_state

text \<open>
  One step of the pool: a worker takes the next work item; a running call executes its
  next statement; a returned call resolves its future and frees its worker; the main
  thread, once nothing is queued or running, leaves the \<^verbatim>\<open>with\<close> block and prints the
  last line (line 85). Which of the possible steps happens next is not determined.
\<close>

inductive step :: "env \<Rightarrow> pool \<Rightarrow> pool \<Rightarrow> bool" for env :: env where
  take_item:
    "queue s = filename # rest \<Longrightarrow> length (running s) < max_workers \<Longrightarrow>
     step env s (s\<lparr>queue := rest, running := running s @ [(filename, AtPrintStart)]\<rparr>)"
| statement:
    "i < length (running s) \<Longrightarrow> running s ! i = (filename, t) \<Longrightarrow> fuel t \<noteq> 0 \<Longrightarrow>
     task_step env filename t (os s) = (t', w') \<Longrightarrow>
     step env s (s\<lparr>running := (running s)[i := (filename, t')], os := w'\<rparr>)"
| resolve:
    "i < length (running s) \<Longrightarrow> running s ! i = (filename, Returned b) \<Longrightarrow>
     step env s (s\<lparr>running := take i (running s) @ drop (Suc i) (running s),
                    futures := futures s @ [(filename, b)]\<rparr>)"
| leave_with:
    "queue s = [] \<Longrightarrow> running s = [] \<Longrightarrow> driver s = Waiting \<Longrightarrow>
     step env s (s\<lparr>driver := Finished, os := emit AllCompleted (os s)\<rparr>)"

text \<open>The pool right after \<^verbatim>\<open>executor.map\<close> has submitted its work items.\<close>

definition submitted :: "string list \<Rightarrow> os_state \<Rightarrow> pool" where
  "submitted names w = \<lparr>queue = names, running = [], futures = [], driver = Waiting, os = w\<rparr>"

text \<open>
  Lines 75 to 83 of \<^verbatim>\<open>main\<close>, up to the submission: \<open>Inl e\<close> when \<^verbatim>\<open>os.makedirs\<close> raises,
  which nothing catches.
\<close>

definition main_start :: "env \<Rightarrow> os_state \<Rightarrow> string + pool" where
  "main_start env w =
     (if \<not> path_exists w OUTPUT_DIR
      then (case makedirs env OUTPUT_DIR of
              Some e \<Rightarrow> Inl e
            | None \<Rightarrow>
                Inr (submitted FILES
                  (emit (Downloading (length FILES) BASE_URL)
                    (emit (Created OUTPUT_DIR) (w\<lparr>dirs := insert OUTPUT_DIR (dirs w)\<rparr>)))))
      else Inr (submitted FILES (emit (Downloading (length FILES) BASE_URL) w)))"

text \<open>
  What is left to do in a pool state, counted in steps: an upper bound that every step
  lowers.
\<close>

definition remaining :: "pool \<Rightarrow> nat" where
  "remaining s =
     8 * length (queue s) + sum_list (map (\<lambda>(filename, t). fuel t + 1) (running s))
     + (case driver s of Waiting \<Rightarrow> 1 | Finished \<Rightarrow> 0)"

subsection \<open>Bookkeeping for the properties of the pool\<close>

text \<open>
  What a call at a position has done so far, as 0 or 1: printed its first line (line
  55), made its request (line 63), printed its result line (line 67 or 70).
\<close>

fun started :: "task \<Rightarrow> nat" where
  "started AtPrintStart = 0"
| "started t = 1"

fun requested :: "task \<Rightarrow> nat" where
  "requested AtPrintStart = 0"
| "requested AtUrlopen = 0"
| "requested t = 1"

fun resolved :: "task \<Rightarrow> nat" where
  "resolved (Returned b) = 1"
| "resolved t = 0"

text \<open>The result lines of a file name: its \<open>Success\<close> line and its \<open>Failed\<close> lines.\<close>

fun is_result :: "string \<Rightarrow> report \<Rightarrow> bool" where
  "is_result g (Success filename) = (filename = g)"
| "is_result g (Failed filename e) = (filename = g)"
| "is_result g l = False"

text \<open>
  The calls for the file name \<open>g\<close> that have done what \<open>h\<close> counts: the running ones by
  their positions, and every resolved one.
\<close>

definition tally :: "(task \<Rightarrow> nat) \<Rightarrow> string \<Rightarrow> pool \<Rightarrow> nat" where
  "tally h g s =
     sum_list (map (\<lambda>(filename, t). if filename = g then h t else 0) (running s))
     + count_list (map fst (futures s)) g"

text \<open>
  What a call at a position comes to when it runs alone from there: its result and the
  content of its destination file.
\<close>

definition outcome :: "env \<Rightarrow> string \<Rightarrow> task \<Rightarrow> os_state \<Rightarrow> bool \<times> bytes option" where
  "outcome env filename t w =
     (case finish env filename t w of (b, w') \<Rightarrow> (b, disk w' (join OUTPUT_DIR filename)))"

text \<open>
  Every work item of the pool, wherever it stands, comes to what a call alone in the
  world \<open>w0\<close> comes to.
\<close>

definition isolated :: "env \<Rightarrow> os_state \<Rightarrow> pool \<Rightarrow> bool" where
  "isolated env w0 s =
     ((\<forall>filename \<in> set (queue s).
         outcome env filename AtPrintStart (os s) = outcome env filename AtPrintStart w0)
      \<and> (\<forall>(filename, t) \<in> set (running s).
         outcome env filename t (os s) = outcome env filename AtPrintStart w0)
      \<and> (\<forall>(filename, b) \<in> set (futures s).
         outcome env filename (Returned b) (os s) = outcome env filename AtPrintStart w0))"

text \<open>The file names of all work items of the pool.\<close>

definition names_of :: "pool \<Rightarrow> string list" where
  "names_of s = queue s @ map fst (running s) @ map fst (futures s)"

section \<open>Properties of the converter\<close>

lemma scan_pixels_map:
  "scan_pixels datas new_data =
     new_data @ map (\<lambda>(r, g, b, a). if r = 255 \<and> g = 255 \<and> b = 255
                                   then (255, 255, 255, 0) else (r, g, b, a)) datas"
  by (induction datas arbitrary: new_data) (auto split: prod.splits)

subsection \<open>Facts about \<^verbatim>\<open>rfind\<close>, \<^verbatim>\<open>splitext\<close> and \<^verbatim>\<open>dirname\<close>\<close>

lemma rfind_bounds: "- 1 \<le> rfind c p \<and> rfind c p < int (length p)"
  by (induction p) (auto simp: Let_def)

lemma rfind_neg_iff: "rfind c p < 0 \<longleftrightarrow> c \<notin> set p"
  by (induction p) (auto simp: Let_def)

lemma rfind_notin: "rfind c p = - 1 \<longleftrightarrow> c \<notin> set p"
  using rfind_bounds [of c p] rfind_neg_iff [of c p] by auto

lemma rfind_append:
  "rfind c (xs @ ys) = (if c \<in> set ys then int (length xs) + rfind c ys else rfind c xs)"
proof (induction xs)
  case Nil
  then show ?case by (simp add: rfind_notin)
next
  case (Cons x xs)
  then show ?case
    using rfind_bounds [of c ys] rfind_neg_iff [of c ys] by (auto simp: Let_def)
qed

lemma rfind_take:
  assumes "rfind c p < d" "0 \<le> d"
  shows "rfind c (take (nat d) p) = rfind c p"
proof -
  have "rfind c p = rfind c (take (nat d) p @ drop (nat d) p)" by simp
  also have "\<dots> = (if c \<in> set (drop (nat d) p)
                     then int (length (take (nat d) p)) + rfind c (drop (nat d) p)
                     else rfind c (take (nat d) p))"
    by (rule rfind_append)
  finally have eq: "rfind c p = (if c \<in> set (drop (nat d) p)
                     then int (length (take (nat d) p)) + rfind c (drop (nat d) p)
                     else rfind c (take (nat d) p))" .
  show ?thesis
  proof (cases "c \<in> set (drop (nat d) p)")
    case True
    then have "nat d < length p" by (cases "nat d < length p") auto
    moreover have "0 \<le> rfind c (drop (nat d) p)"
      using True rfind_neg_iff [of c "drop (nat d) p"] by auto
    ultimately have "d \<le> rfind c p" using eq True assms by (simp add: min_def)
    with assms show ?thesis by simp
  next
    case False
    with eq show ?thesis by simp
  qed
qed

lemma splitext_scan_Some:
  "splitext_scan p i d = Some r \<Longrightarrow> r = (take (nat d) p, drop (nat d) p) \<and> i < d"
proof (induction p i d rule: splitext_scan.induct)
  case (1 p i d)
  then show ?case
    by (subst (asm) (2) splitext_scan.simps) (auto split: if_splits)
qed

lemma splitext_cases:
  "splitext p = (p, []) \<or>
   (\<exists>d. rfind (CHR ''/'') p < d \<and> d = rfind (CHR ''.'') p \<and> splitext p = (take (nat d) p, drop (nat d) p))"
  unfolding splitext_def Let_def
  by (auto split: option.splits dest!: splitext_scan_Some)

lemma rfind_drop:
  assumes "rfind c p < d" "0 \<le> d"
  shows "c \<notin> set (drop (nat d) p)"
proof
  assume in_drop: "c \<in> set (drop (nat d) p)"
  have "rfind c (take (nat d) p @ drop (nat d) p) =
          int (length (take (nat d) p)) + rfind c (drop (nat d) p)"
    using in_drop by (simp only: rfind_append if_True)
  moreover have "nat d < length p" using in_drop by (cases "nat d < length p") auto
  moreover have "0 \<le> rfind c (drop (nat d) p)"
    using in_drop rfind_neg_iff [of c "drop (nat d) p"] by auto
  ultimately have "d \<le> rfind c p" using assms by (simp add: min_def)
  with assms show False by simp
qed

lemma rfind_nth: "0 \<le> rfind c p \<Longrightarrow> p ! nat (rfind c p) = c"
  by (induction p) (auto simp: Let_def nat_add_distrib split: if_splits)

lemma splitext_root_ext: "fst (splitext p) @ snd (splitext p) = p"
  using splitext_cases [of p] by auto

lemma splitext_ext_shape:
  "snd (splitext p) = [] \<or>
   (hd (snd (splitext p)) = CHR ''.'' \<and> CHR ''.'' \<notin> set (tl (snd (splitext p)))
    \<and> CHR ''/'' \<notin> set (snd (splitext p)))"
proof -
  consider "splitext p = (p, [])"
    | d where "rfind (CHR ''/'') p < d" "d = rfind (CHR ''.'') p"
        "splitext p = (take (nat d) p, drop (nat d) p)"
    using splitext_cases [of p] by blast
  then show ?thesis
  proof cases
    case 1
    then show ?thesis by simp
  next
    case 2
    have d0: "0 \<le> d" using 2(1) rfind_bounds [of "CHR ''/''" p] by simp
    have dlen: "nat d < length p" using 2(2) d0 rfind_bounds [of "CHR ''.''" p] by simp
    have "hd (drop (nat d) p) = CHR ''.''"
      using rfind_nth [of "CHR ''.''" p] d0 dlen 2(2) by (simp add: hd_drop_conv_nth)
    moreover have "CHR ''.'' \<notin> set (drop (nat (d + 1)) p)"
      using rfind_drop [of "CHR ''.''" p "d + 1"] 2(2) d0 by simp
    then have "CHR ''.'' \<notin> set (tl (drop (nat d) p))"
      using d0 by (simp add: tl_drop drop_Suc nat_add_distrib)
    moreover have "CHR ''/'' \<notin> set (drop (nat d) p)"
      using rfind_drop [of "CHR ''/''" p d] 2(1) d0 by simp
    ultimately show ?thesis using 2(3) by simp
  qed
qed

lemma rfind_root_suffix:
  assumes "CHR ''/'' \<notin> set sfx"
  shows "rfind (CHR ''/'') (fst (splitext p) @ sfx) = rfind (CHR ''/'') p"
    and "take (nat (rfind (CHR ''/'') p + 1)) (fst (splitext p) @ sfx) =
         take (nat (rfind (CHR ''/'') p + 1)) p"
proof -
  consider "splitext p = (p, [])"
    | d where "rfind (CHR ''/'') p < d" "d = rfind (CHR ''.'') p"
        "splitext p = (take (nat d) p, drop (nat d) p)"
    using splitext_cases [of p] by blast
  then have "rfind (CHR ''/'') (fst (splitext p) @ sfx) = rfind (CHR ''/'') p
      \<and> take (nat (rfind (CHR ''/'') p + 1)) (fst (splitext p) @ sfx) =
         take (nat (rfind (CHR ''/'') p + 1)) p"
  proof cases
    case 1
    have "nat (rfind (CHR ''/'') p + 1) \<le> length p"
      using rfind_bounds [of "CHR ''/''" p] by linarith
    then show ?thesis using 1 assms by (simp add: rfind_append)
  next
    case 2
    have d0: "0 \<le> d" using 2(1) rfind_bounds [of "CHR ''/''" p] by simp
    have dlen: "nat d < length p" using 2(2) d0 rfind_bounds [of "CHR ''.''" p] by simp
    have le: "nat (rfind (CHR ''/'') p + 1) \<le> nat d" using 2(1) by simp
    have "rfind (CHR ''/'') (take (nat d) p) = rfind (CHR ''/'') p"
      using rfind_take [of "CHR ''/''" p d] 2(1) d0 by simp
    moreover have "take (nat (rfind (CHR ''/'') p + 1)) (take (nat d) p @ sfx) =
                   take (nat (rfind (CHR ''/'') p + 1)) p"
      using le dlen by (simp add: min_def)
    ultimately show ?thesis using 2(3) assms by (simp add: rfind_append)
  qed
  then show "rfind (CHR ''/'') (fst (splitext p) @ sfx) = rfind (CHR ''/'') p"
    and "take (nat (rfind (CHR ''/'') p + 1)) (fst (splitext p) @ sfx) =
         take (nat (rfind (CHR ''/'') p + 1)) p"
    by simp_all
qed

lemma dirname_default:
  "dirname (fst (splitext p) @ ''_transparent.png'') = dirname p"
proof -
  have "CHR ''/'' \<notin> set ''_transparent.png''" by simp
  from rfind_root_suffix [OF this, of p] show ?thesis
    unfolding dirname_def Let_def by (simp only:)
qed

lemma splitext_icon: "splitext ''icon.png'' = (''icon'', ''.png'')"
  by (simp add: splitext_def splitext_scan.simps)

subsection \<open>The loop, twice\<close>

lemma scan_pixels_idem: "scan_pixels (scan_pixels datas []) [] = scan_pixels datas []"
  by (simp add: scan_pixels_map) (auto split: prod.splits)

subsection \<open>The claims about the converter\<close>

text \<open>
  Claim C1. Whatever pixel grid was decoded, the pixel data that the converter puts back
  holds, position by position, \<open>(255, 255, 255, 0)\<close> where the decoded pixel had
  \<open>R = G = B = 255\<close> (whatever its alpha, present or not), and elsewhere the decoded pixel
  itself, with alpha 255 where the decoded pixel had none; the size of the image is
  kept. A run that finds, decodes and can write leaves exactly this image, encoded, at
  the output path. On the 2x2 grid of the spec's concrete scenario the loop gives the
  expected pixels.
\<close>

theorem pixel_invariant:
  "putdata (convert_RGBA raw) (scan_pixels (img_data (convert_RGBA raw)) []) =
     \<lparr>img_size = img_size raw,
      img_data =
        map (\<lambda>(r, g, b, a).
               if (r, g, b) = (255, 255, 255) then (255, 255, 255, 0)
               else (r, g, b, (case a of None \<Rightarrow> 255 | Some a' \<Rightarrow> a')))
            (img_data raw)\<rparr>
   \<and> (files w input_path = Some f \<and> decode pil f = Some raw
        \<and> writable w (resolve_output_path input_path output_path) \<longrightarrow>
      fst (white_to_transparent pil input_path output_path w) = Inr ()
      \<and> files (snd (white_to_transparent pil input_path output_path w))
            (resolve_output_path input_path output_path) =
          Some (encode_png pil
            \<lparr>img_size = img_size raw,
             img_data =
               map (\<lambda>(r, g, b, a).
                      if (r, g, b) = (255, 255, 255) then (255, 255, 255, 0)
                      else (r, g, b, (case a of None \<Rightarrow> 255 | Some a' \<Rightarrow> a')))
                   (img_data raw)\<rparr>))
   \<and> scan_pixels [(255, 255, 255, 255), (10, 20, 30, 255), (255, 255, 255, 100), (0, 0, 0, 255)] [] =
       [(255, 255, 255, 0), (10, 20, 30, 255), (255, 255, 255, 0), (0, 0, 0, 255)]"
proof -
  let ?spec = "\<lambda>(r, g, b, a).
               if (r, g, b) = (255, 255, 255) then (255, 255, 255, 0)
               else (r, g, b, (case a of None \<Rightarrow> 255 | Some a' \<Rightarrow> (a' :: channel)))"
  have "map ((\<lambda>(r, g, b, a). if r = 255 \<and> g = 255 \<and> b = 255
                               then (255, 255, 255, 0) else (r, g, b, a)) \<circ> convert_RGBA_pixel) ps =
        map ?spec ps" for ps
    by (rule map_cong) auto
  then have img: "putdata (convert_RGBA raw) (scan_pixels (img_data (convert_RGBA raw)) []) =
     \<lparr>img_size = img_size raw, img_data = map ?spec (img_data raw)\<rparr>"
    by (simp add: putdata_def convert_RGBA_def scan_pixels_map)
  have run: "fst (white_to_transparent pil input_path output_path w) = Inr ()
      \<and> files (snd (white_to_transparent pil input_path output_path w))
            (resolve_output_path input_path output_path) =
          Some (encode_png pil \<lparr>img_size = img_size raw, img_data = map ?spec (img_data raw)\<rparr>)"
    if "files w input_path = Some f" "decode pil f = Some raw"
      "writable w (resolve_output_path input_path output_path)"
    using that img
    by (simp add: white_to_transparent_def exists_def print_def Image_open_def save_def Let_def)
  have "scan_pixels [(255, 255, 255, 255), (10, 20, 30, 255), (255, 255, 255, 100), (0, 0, 0, 255)] [] =
       [(255, 255, 255, 0), (10, 20, 30, 255), (255, 255, 255, 0), (0, 0, 0, 255)]"
    by simp
  with img run show ?thesis by blast
qed

theorem pixel_invariant_witness:
  "files \<lparr>files = [''in.png'' \<mapsto> [(255, 255, 255, Some 255), (10, 20, 30, None),
                                     (255, 255, 255, Some 100), (0, 0, 0, Some 255)]],
          writable = (\<lambda>p. True), console = [], opened = []\<rparr> ''in.png'' =
     Some [(255, 255, 255, Some 255), (10, 20, 30, None), (255, 255, 255, Some 100), (0, 0, 0, Some 255)]
   \<and> files (snd (white_to_transparent
        \<lparr>decode = (\<lambda>f. Some \<lparr>img_size = (2, 2), img_data = f\<rparr>),
         encode_png = (\<lambda>img. map (\<lambda>(r, g, b, a). (r, g, b, Some a)) (img_data img))\<rparr>
        ''in.png'' (Some ''out.png'')
        \<lparr>files = [''in.png'' \<mapsto> [(255, 255, 255, Some 255), (10, 20, 30, None),
                                     (255, 255, 255, Some 100), (0, 0, 0, Some 255)]],
          writable = (\<lambda>p. True), console = [], opened = []\<rparr>)) ''out.png'' =
     Some [(255, 255, 255, Some 0), (10, 20, 30, Some 255), (255, 255, 255, Some 0), (0, 0, 0, Some 255)]"
  using pixel_invariant [of
      "\<lparr>img_size = (2, 2), img_data = [(255, 255, 255, Some 255), (10, 20, 30, None),
                                     (255, 255, 255, Some 100), (0, 0, 0, Some 255)]\<rparr>"
      "\<lparr>files = [''in.png'' \<mapsto> [(255, 255, 255, Some 255), (10, 20, 30, None),
                                     (255, 255, 255, Some 100), (0, 0, 0, Some 255)]],
          writable = (\<lambda>p. True), console = [], opened = []\<rparr>"
      "''in.png''"
      "[(255, 255, 255, Some 255), (10, 20, 30, None), (255, 255, 255, Some 100), (0, 0, 0, Some 255)]"
      "\<lparr>decode = (\<lambda>f. Some \<lparr>img_size = (2, 2), img_data = f\<rparr>),
        encode_png = (\<lambda>img. map (\<lambda>(r, g, b, a). (r, g, b, Some a)) (img_data img))\<rparr>"
      "Some ''out.png''"]
  by (simp add: resolve_output_path_def)

text \<open>
  Claim C3. The claim: when the image library is missing at startup, the program prints
  the instruction and does nothing else, and no fault is raised. What the module does:
  it prints the instruction, and then the call of line 43 raises \<^verbatim>\<open>NameError\<close>, since
  the name \<^verbatim>\<open>white_to_transparent\<close> was never bound. No file is read or written.
\<close>

theorem missing_dependency_raises:
  "test_py None w = (Inl (NameError ''white_to_transparent''), w\<lparr>console := console w @ [MissingPillow]\<rparr>)"
  by (simp add: test_py_def print_def)

text \<open>
  Claim C4. When no file exists at \<open>input_path\<close>, \<^verbatim>\<open>white_to_transparent\<close> returns
  normally, and the only change to the world is one more printed line, the message
  that names the path: the files are as before (no output file), and nothing was
  handed to \<^verbatim>\<open>Image.open\<close>.
\<close>

theorem missing_input:
  "files w input_path = None \<Longrightarrow>
   white_to_transparent pil input_path output_path w =
     (Inr (), w\<lparr>console := console w @ [NotFound input_path]\<rparr>)"
  by (simp add: white_to_transparent_def exists_def print_def)

theorem missing_input_witness:
  "files \<lparr>files = Map.empty, writable = (\<lambda>p. True), console = [], opened = []\<rparr> ''nowhere.png'' = None
   \<and> white_to_transparent \<lparr>decode = (\<lambda>f::nat. None), encode_png = (\<lambda>img. 0)\<rparr> ''nowhere.png'' None
       \<lparr>files = Map.empty, writable = (\<lambda>p. True), console = [], opened = []\<rparr> =
     (Inr (), \<lparr>files = Map.empty, writable = (\<lambda>p. True), console = [NotFound ''nowhere.png''], opened = []\<rparr>)"
  using missing_input [of "\<lparr>files = Map.empty, writable = (\<lambda>p. True), console = [], opened = []\<rparr>"
      "''nowhere.png''" "\<lparr>decode = (\<lambda>f::nat. None), encode_png = (\<lambda>img. 0)\<rparr>" None]
  by simp

text \<open>
  Claim C7. Run twice in a row with the same arguments, the converter leaves the same
  files after the second run as after the first, with the same outcome; so the output
  file has the same content both times. When the output path is the input path, the
  second run reads the first run's output, and the statement needs that decoding an
  encoded RGBA image gives the image back (PNG is lossless). The loop applied to its
  own result changes nothing.
\<close>

theorem converter_idempotent:
  "((resolve_output_path input_path output_path = input_path \<longrightarrow>
      (\<forall>img. map_option convert_RGBA (decode pil (encode_png pil img)) = Some img)) \<longrightarrow>
    (case white_to_transparent pil input_path output_path w of
       (r1, w1) \<Rightarrow>
         (case white_to_transparent pil input_path output_path w1 of
            (r2, w2) \<Rightarrow> r2 = r1 \<and> files w2 = files w1)))
   \<and> scan_pixels (scan_pixels datas []) [] = scan_pixels datas []"
proof -
  have main: "(case white_to_transparent pil input_path output_path w of
       (r1, w1) \<Rightarrow>
         (case white_to_transparent pil input_path output_path w1 of
            (r2, w2) \<Rightarrow> r2 = r1 \<and> files w2 = files w1))"
    if rt: "resolve_output_path input_path output_path = input_path \<Longrightarrow>
      (\<forall>img. map_option convert_RGBA (decode pil (encode_png pil img)) = Some img)"
  proof (cases "files w input_path")
    case None
    then show ?thesis
      by (simp add: white_to_transparent_def exists_def print_def)
  next
    case (Some f)
    show ?thesis
    proof (cases "decode pil f")
      case None
      with Some show ?thesis
        by (simp add: white_to_transparent_def exists_def print_def Image_open_def Let_def)
    next
      case (Some raw)
      note dec = this
      let ?out = "resolve_output_path input_path output_path"
      let ?img = "putdata (convert_RGBA raw) (scan_pixels (img_data (convert_RGBA raw)) [])"
      show ?thesis
      proof (cases "writable w ?out")
        case False
        with \<open>files w input_path = Some f\<close> dec show ?thesis
          by (simp add: white_to_transparent_def exists_def print_def Image_open_def
              save_def Let_def)
      next
        case True
        show ?thesis
        proof (cases "?out = input_path")
          case False
          with True \<open>files w input_path = Some f\<close> dec show ?thesis
            by (simp add: white_to_transparent_def exists_def print_def Image_open_def
                save_def Let_def)
        next
          case same: True
          from rt [OF same] obtain raw' where
            raw': "decode pil (encode_png pil ?img) = Some raw'" "convert_RGBA raw' = ?img"
            by (metis (no_types, lifting) map_option_eq_Some)
          have again: "putdata ?img (scan_pixels (img_data ?img) []) = ?img"
            by (simp add: putdata_def scan_pixels_idem)
          from True same \<open>files w input_path = Some f\<close> dec raw' again show ?thesis
            by (simp add: white_to_transparent_def exists_def print_def Image_open_def
                save_def Let_def)
        qed
      qed
    qed
  qed
  show ?thesis using main scan_pixels_idem by blast
qed

theorem converter_idempotent_witness:
  "resolve_output_path ''a.png'' (Some ''a.png'') = ''a.png''
   \<and> (\<forall>img. map_option convert_RGBA
          (decode \<lparr>decode = (\<lambda>f. Some \<lparr>img_size = img_size f,
                                          img_data = map (\<lambda>(r, g, b, a). (r, g, b, Some a)) (img_data f)\<rparr>),
                   encode_png = (\<lambda>img. img)\<rparr>
             (encode_png \<lparr>decode = (\<lambda>f. Some \<lparr>img_size = img_size f,
                                          img_data = map (\<lambda>(r, g, b, a). (r, g, b, Some a)) (img_data f)\<rparr>),
                          encode_png = (\<lambda>img. img)\<rparr> img)) = Some img)
   \<and> (case white_to_transparent
            \<lparr>decode = (\<lambda>f. Some \<lparr>img_size = img_size f,
                                   img_data = map (\<lambda>(r, g, b, a). (r, g, b, Some a)) (img_data f)\<rparr>),
             encode_png = (\<lambda>img. img)\<rparr>
            ''a.png'' (Some ''a.png'')
            \<lparr>files = [''a.png'' \<mapsto> \<lparr>img_size = (1, 2), img_data = [(255, 255, 255, 7), (1, 2, 3, 4)]\<rparr>],
             writable = (\<lambda>p. True), console = [], opened = []\<rparr> of
        (r1, w1) \<Rightarrow>
          (case white_to_transparent
                  \<lparr>decode = (\<lambda>f. Some \<lparr>img_size = img_size f,
                                         img_data = map (\<lambda>(r, g, b, a). (r, g, b, Some a)) (img_data f)\<rparr>),
                   encode_png = (\<lambda>img. img)\<rparr>
                  ''a.png'' (Some ''a.png'') w1 of
             (r2, w2) \<Rightarrow> r2 = r1 \<and> files w2 = files w1))"
proof -
  let ?pil = "\<lparr>decode = (\<lambda>f. Some \<lparr>img_size = img_size f,
                                     img_data = map (\<lambda>(r, g, b, a). (r, g, b, Some a)) (img_data f)\<rparr>),
               encode_png = (\<lambda>img :: pixel image. img)\<rparr>"
  let ?w = "\<lparr>files = [''a.png'' \<mapsto> \<lparr>img_size = (1, 2), img_data = [(255, 255, 255, 7), (1, 2, 3, 4)]\<rparr>],
             writable = (\<lambda>p. True), console = [], opened = []\<rparr>"
  have out: "resolve_output_path ''a.png'' (Some ''a.png'') = ''a.png''"
    by (simp add: resolve_output_path_def)
  have "map (convert_RGBA_pixel \<circ> (\<lambda>(r, g, b, a). (r, g, b, Some a))) ps = ps" for ps
    by (induction ps) auto
  then have rt: "\<forall>img. map_option convert_RGBA (decode ?pil (encode_png ?pil img)) = Some img"
    by (simp add: convert_RGBA_def)
  let ?H = "resolve_output_path ''a.png'' (Some ''a.png'') = ''a.png'' \<longrightarrow>
      (\<forall>img. map_option convert_RGBA (decode ?pil (encode_png ?pil img)) = Some img)"
  let ?T = "case white_to_transparent ?pil ''a.png'' (Some ''a.png'') ?w of
        (r1, w1) \<Rightarrow>
          (case white_to_transparent ?pil ''a.png'' (Some ''a.png'') w1 of
             (r2, w2) \<Rightarrow> r2 = r1 \<and> files w2 = files w1)"
  have hyp: ?H using rt by blast
  have "?H \<longrightarrow> ?T"
    using converter_idempotent [of "''a.png''" "Some ''a.png''" ?pil ?w] by (rule conjunct1)
  then have twice: ?T using hyp by (rule mp)
  show ?thesis
    using out rt twice by (intro conjI)
qed

text \<open>
  Claim C8. With no output path, a run that finds, decodes and can write returns
  normally after writing the encoded image to the root of \<^verbatim>\<open>splitext(input_path)\<close>
  followed by \<^verbatim>\<open>_transparent.png\<close>. The root is the input path without its extension:
  root and extension together are the input path, and the extension is empty or starts
  with its only period and has no path separator. The output path has the directory
  of the input path. For \<^verbatim>\<open>icon.png\<close> the output path is \<^verbatim>\<open>icon_transparent.png\<close>.
\<close>

theorem default_output_path:
  "(files w input_path = Some f \<and> decode pil f = Some raw
      \<and> writable w (fst (splitext input_path) @ ''_transparent.png'') \<longrightarrow>
    white_to_transparent pil input_path None w =
      (Inr (),
       w\<lparr>files := (files w)(fst (splitext input_path) @ ''_transparent.png'' \<mapsto>
                     encode_png pil (putdata (convert_RGBA raw)
                                       (scan_pixels (img_data (convert_RGBA raw)) []))),
         console := console w @ [Processing input_path,
                                 Saved (fst (splitext input_path) @ ''_transparent.png'')],
         opened := opened w @ [input_path]\<rparr>))
   \<and> fst (splitext input_path) @ snd (splitext input_path) = input_path
   \<and> (snd (splitext input_path) = [] \<or>
      (hd (snd (splitext input_path)) = CHR ''.''
       \<and> CHR ''.'' \<notin> set (tl (snd (splitext input_path)))
       \<and> CHR ''/'' \<notin> set (snd (splitext input_path))))
   \<and> dirname (fst (splitext input_path) @ ''_transparent.png'') = dirname input_path
   \<and> resolve_output_path ''icon.png'' None = ''icon_transparent.png''"
proof -
  have run: "white_to_transparent pil input_path None w =
      (Inr (),
       w\<lparr>files := (files w)(fst (splitext input_path) @ ''_transparent.png'' \<mapsto>
                     encode_png pil (putdata (convert_RGBA raw)
                                       (scan_pixels (img_data (convert_RGBA raw)) []))),
         console := console w @ [Processing input_path,
                                 Saved (fst (splitext input_path) @ ''_transparent.png'')],
         opened := opened w @ [input_path]\<rparr>)"
    if "files w input_path = Some f" "decode pil f = Some raw"
      "writable w (fst (splitext input_path) @ ''_transparent.png'')"
    using that
    by (simp add: white_to_transparent_def resolve_output_path_def exists_def print_def
        Image_open_def save_def Let_def split_def)
  have icon: "resolve_output_path ''icon.png'' None = ''icon_transparent.png''"
    by (simp add: resolve_output_path_def splitext_icon)
  show ?thesis
    using run splitext_root_ext [of input_path] splitext_ext_shape [of input_path]
      dirname_default [of input_path] icon
    by blast
qed

theorem default_output_path_witness:
  "files \<lparr>files = [''icon.png'' \<mapsto> 255], writable = (\<lambda>p. True), console = [], opened = []\<rparr>
     ''icon.png'' = Some (255 :: channel)
   \<and> decode \<lparr>decode = (\<lambda>f. Some \<lparr>img_size = (1, 1), img_data = [(f, f, f, None)]\<rparr>),
              encode_png = (\<lambda>img. fst (hd (img_data img)))\<rparr> 255 =
       Some \<lparr>img_size = (1, 1), img_data = [(255, 255, 255, None)]\<rparr>
   \<and> writable \<lparr>files = [''icon.png'' \<mapsto> 255 :: channel], writable = (\<lambda>p. True),
                console = [], opened = []\<rparr>
       (fst (splitext ''icon.png'') @ ''_transparent.png'')
   \<and> white_to_transparent
     \<lparr>decode = (\<lambda>f. Some \<lparr>img_size = (1, 1), img_data = [(f, f, f, None)]\<rparr>),
      encode_png = (\<lambda>img. fst (hd (img_data img)))\<rparr>
     ''icon.png'' None
     \<lparr>files = [''icon.png'' \<mapsto> 255], writable = (\<lambda>p. True), console = [], opened = []\<rparr> =
   (Inr (),
    \<lparr>files = [''icon.png'' \<mapsto> 255, ''icon_transparent.png'' \<mapsto> 255],
     writable = (\<lambda>p. True),
     console = [Processing ''icon.png'', Saved ''icon_transparent.png''],
     opened = [''icon.png'']\<rparr>)"
  using default_output_path [of
      "\<lparr>files = [''icon.png'' \<mapsto> 255], writable = (\<lambda>p. True), console = [], opened = []\<rparr>"
      "''icon.png''" 255
      "\<lparr>decode = (\<lambda>f. Some \<lparr>img_size = (1, 1), img_data = [(f, f, f, None)]\<rparr>),
        encode_png = (\<lambda>img. fst (hd (img_data img)))\<rparr>"
      "\<lparr>img_size = (1, 1), img_data = [(255, 255, 255, None)]\<rparr>"]
  by (simp add: splitext_icon putdata_def convert_RGBA_def)


section \<open>Properties of the fetcher\<close>

text \<open>
  Claim C2, as the spec states it: the list \<open>FILES\<close> has exactly 35 entries. The list in
  the source has 36, so the statement fails.
\<close>

theorem FILES_not_35: "length FILES \<noteq> 35"
  by (simp add: FILES_def)

text \<open>
  Claim C2, amended: the list \<open>FILES\<close> has exactly 36 entries.
\<close>

theorem FILES_length: "length FILES = 36"
  by (simp add: FILES_def)

subsection \<open>One call of \<^verbatim>\<open>download_file\<close>\<close>

lemma download_file_finish:
  "download_file env filename w =
     (case finish env filename AtPrintStart w of (b, w') \<Rightarrow> (Inr b, w'))"
  by (simp add: download_file_def try_body_def emit_def Let_def
      split: sum.splits option.splits prod.splits)

lemma task_step_fuel:
  "fuel t \<noteq> 0 \<Longrightarrow> fuel (fst (task_step env filename t w)) < fuel t"
  by (cases t) (auto simp: Let_def split: sum.splits option.splits)

lemma finish_step:
  "fuel t \<noteq> 0 \<Longrightarrow> task_step env filename t w = (t', w') \<Longrightarrow>
   finish env filename t w = finish env filename t' w'"
  by (cases t) auto

text \<open>
  Claim C10. When the request succeeds, the destination can be opened and reading the
  body raises, \<^verbatim>\<open>download_file\<close> returns \<open>False\<close> after printing the failure line, and
  the destination file is left empty, whatever it held before: the function truncated
  it before it read the body.
\<close>

theorem failed_read_truncates:
  "urlopen env (BASE_URL @ filename) = Inr response \<and>
   open_wb env (join OUTPUT_DIR filename) = None \<and> read response = Inl e \<longrightarrow>
   download_file env filename w =
     (Inr False,
      w\<lparr>disk := (disk w)(join OUTPUT_DIR filename \<mapsto> []),
        stdout := stdout w @ [Starting filename, Failed filename e],
        requests := requests w @ [BASE_URL @ filename]\<rparr>)"
  by (simp add: download_file_def try_body_def emit_def Let_def)

theorem failed_read_truncates_witness:
  "urlopen \<lparr>urlopen = (\<lambda>u. Inr (Response (Inl ''reset''))), open_wb = (\<lambda>p. None),
            write_bytes = (\<lambda>p d. None), makedirs = (\<lambda>p. None)\<rparr> (BASE_URL @ ''a.wasm'') =
     Inr (Response (Inl ''reset''))
   \<and> open_wb \<lparr>urlopen = (\<lambda>u. Inr (Response (Inl ''reset''))), open_wb = (\<lambda>p. None),
            write_bytes = (\<lambda>p d. None), makedirs = (\<lambda>p. None)\<rparr> (join OUTPUT_DIR ''a.wasm'') = None
   \<and> read (Response (Inl ''reset'')) = Inl ''reset''
   \<and> disk \<lparr>disk = [''./a.wasm'' \<mapsto> [1, 2, 3]], dirs = {''.''}, stdout = [], requests = []\<rparr>
        ''./a.wasm'' = Some [1, 2, 3]
   \<and> download_file
        \<lparr>urlopen = (\<lambda>u. Inr (Response (Inl ''reset''))), open_wb = (\<lambda>p. None),
          write_bytes = (\<lambda>p d. None), makedirs = (\<lambda>p. None)\<rparr>
        ''a.wasm''
        \<lparr>disk = [''./a.wasm'' \<mapsto> [1, 2, 3]], dirs = {''.''}, stdout = [], requests = []\<rparr> =
      (Inr False,
       \<lparr>disk = [''./a.wasm'' \<mapsto> []], dirs = {''.''},
        stdout = [Starting ''a.wasm'', Failed ''a.wasm'' ''reset''],
        requests = [BASE_URL @ ''a.wasm'']\<rparr>)"
  using failed_read_truncates [of
      "\<lparr>urlopen = (\<lambda>u. Inr (Response (Inl ''reset''))), open_wb = (\<lambda>p. None),
        write_bytes = (\<lambda>p d. None), makedirs = (\<lambda>p. None)\<rparr>"
      "''a.wasm''" "Response (Inl ''reset'')" "''reset''"
      "\<lparr>disk = [''./a.wasm'' \<mapsto> [1, 2, 3]], dirs = {''.''}, stdout = [], requests = []\<rparr>"]
  by (simp add: join_def OUTPUT_DIR_def)

subsection \<open>Every step of the pool uses up a bounded supply\<close>

lemma sum_list_map_update:
  "i < length xs \<Longrightarrow>
   sum_list (map h (xs[i := y])) + h (xs ! i) = sum_list (map h xs) + (h y :: nat)"
proof (induction xs arbitrary: i)
  case Nil
  then show ?case by simp
next
  case (Cons x xs)
  then show ?case by (cases i) auto
qed

lemma sum_list_map_remove:
  "i < length xs \<Longrightarrow>
   sum_list (map h (take i xs @ drop (Suc i) xs)) + h (xs ! i) = (sum_list (map h xs) :: nat)"
proof (induction xs arbitrary: i)
  case Nil
  then show ?case by simp
next
  case (Cons x xs)
  then show ?case by (cases i) (auto simp: add.assoc)
qed

lemma fuel_0_iff: "fuel t = 0 \<longleftrightarrow> (\<exists>b. t = Returned b)"
  by (cases t) auto

lemma step_remaining: "step env s s' \<Longrightarrow> remaining s' < remaining s"
proof (induction rule: step.induct)
  case (take_item s filename rest)
  then show ?case by (simp add: remaining_def)
next
  case (statement i s filename t t' w')
  have "fuel t' < fuel t"
    using task_step_fuel [of t env filename "os s"] statement by simp
  moreover have "sum_list (map (\<lambda>(filename, t). fuel t + 1) ((running s)[i := (filename, t')]))
                 + (fuel t + 1) =
                 sum_list (map (\<lambda>(filename, t). fuel t + 1) (running s)) + (fuel t' + 1)"
    using sum_list_map_update [of i "running s" "\<lambda>(filename, t). fuel t + 1" "(filename, t')"]
      statement by simp
  ultimately show ?case by (simp add: remaining_def)
next
  case (resolve i s filename b)
  have "sum_list (map (\<lambda>(filename, t). fuel t + 1) (take i (running s) @ drop (Suc i) (running s)))
          + 1 = sum_list (map (\<lambda>(filename, t). fuel t + 1) (running s))"
    using sum_list_map_remove [of i "running s" "\<lambda>(filename, t). fuel t + 1"] resolve by simp
  then show ?case by (simp add: remaining_def)
next
  case (leave_with s)
  then show ?case by (simp add: remaining_def)
qed

lemma steps_bounded: "(step env ^^ n) s s' \<Longrightarrow> n + remaining s' \<le> remaining s"
proof (induction n arbitrary: s')
  case 0
  then show ?case by simp
next
  case (Suc n)
  then obtain m where "(step env ^^ n) s m" "step env m s'" by auto
  with Suc.IH [of m] step_remaining [of env m s'] show ?case by simp
qed

lemma progress: "driver s = Waiting \<Longrightarrow> \<exists>s'. step env s s'"
proof (cases "running s")
  case Nil
  assume w: "driver s = Waiting"
  show ?thesis
  proof (cases "queue s")
    case Nil
    with \<open>running s = []\<close> w show ?thesis by (blast intro: step.leave_with)
  next
    case (Cons filename rest)
    with \<open>running s = []\<close> have "length (running s) < max_workers"
      by (simp add: max_workers_def)
    with Cons show ?thesis by (blast intro: step.take_item)
  qed
next
  case (Cons x xs)
  obtain filename t where x: "x = (filename, t)" by (cases x)
  have i: "0 < length (running s)" "running s ! 0 = (filename, t)" using Cons x by simp_all
  show ?thesis
  proof (cases "fuel t = 0")
    case True
    then obtain b where "t = Returned b" using fuel_0_iff by blast
    with i show ?thesis by (blast intro: step.resolve)
  next
    case False
    obtain t' w' where "task_step env filename t (os s) = (t', w')"
      by (cases "task_step env filename t (os s)")
    with i False show ?thesis by (blast intro: step.statement)
  qed
qed

lemma can_finish: "\<exists>s'. (step env)\<^sup>*\<^sup>* s s' \<and> driver s' = Finished"
proof (induction "remaining s" arbitrary: s rule: less_induct)
  case less
  show ?case
  proof (cases "driver s")
    case Finished
    then show ?thesis by blast
  next
    case Waiting
    then obtain m where m: "step env s m" using progress by blast
    then have "remaining m < remaining s" by (rule step_remaining)
    from less [OF this] obtain s' where "(step env)\<^sup>*\<^sup>* m s'" "driver s' = Finished" by blast
    with m show ?thesis by (blast intro: converse_rtranclp_into_rtranclp)
  qed
qed

lemma finished_no_step:
  "driver s = Finished \<Longrightarrow> queue s = [] \<Longrightarrow> running s = [] \<Longrightarrow> \<not> step env s s'"
  by (auto elim: step.cases)

subsection \<open>Invariants of the pool\<close>

lemma count_list_snoc: "count_list (xs @ [x]) y = count_list xs y + (if x = y then 1 else 0)"
  by (induction xs) auto

lemma count_list_map_fst_remove:
  "i < length xs \<Longrightarrow>
   count_list (map fst (take i xs @ drop (Suc i) xs)) g + (if fst (xs ! i) = g then 1 else 0) =
   count_list (map fst xs) g"
proof (induction xs arbitrary: i)
  case Nil
  then show ?case by simp
next
  case (Cons x xs)
  then show ?case by (cases i) auto
qed

lemma map_fst_update: "i < length xs \<Longrightarrow> fst (xs ! i) = fst y \<Longrightarrow> map fst (xs[i := y]) = map fst xs"
  by (simp add: map_update list_update_same_conv)

text \<open>Conservation of work items.\<close>

lemma step_conserves:
  "step env s s' \<Longrightarrow>
   count_list (queue s') g + count_list (map fst (running s')) g
     + count_list (map fst (futures s')) g =
   count_list (queue s) g + count_list (map fst (running s)) g
     + count_list (map fst (futures s)) g"
proof (induction rule: step.induct)
  case (take_item s filename rest)
  then show ?case by (simp add: count_list_snoc)
next
  case (statement i s filename t t' w')
  then show ?case by (simp add: map_fst_update)
next
  case (resolve i s filename b)
  then show ?case
    using count_list_map_fst_remove [of i "running s" g]
    by (auto simp: count_list_snoc split: if_splits)
next
  case (leave_with s)
  then show ?case by simp
qed

lemma reach_conserves:
  "(step env)\<^sup>*\<^sup>* s0 s \<Longrightarrow>
   count_list (queue s) g + count_list (map fst (running s)) g
     + count_list (map fst (futures s)) g =
   count_list (queue s0) g + count_list (map fst (running s0)) g
     + count_list (map fst (futures s0)) g"
  by (induction rule: rtranclp_induct) (simp_all add: step_conserves)

text \<open>The shape of the reachable states.\<close>

lemma step_shape:
  "step env s s' \<Longrightarrow>
   (driver s = Finished \<longrightarrow> queue s = [] \<and> running s = []
      \<and> stdout (os s) \<noteq> [] \<and> last (stdout (os s)) = AllCompleted) \<Longrightarrow>
   length (running s) \<le> max_workers \<Longrightarrow>
   (driver s' = Finished \<longrightarrow> queue s' = [] \<and> running s' = []
      \<and> stdout (os s') \<noteq> [] \<and> last (stdout (os s')) = AllCompleted)
   \<and> length (running s') \<le> max_workers"
  by (induction rule: step.induct) (auto simp: emit_def)

lemma reach_shape:
  "(step env)\<^sup>*\<^sup>* (submitted names w) s \<Longrightarrow>
   (driver s = Finished \<longrightarrow> queue s = [] \<and> running s = []
      \<and> stdout (os s) \<noteq> [] \<and> last (stdout (os s)) = AllCompleted)
   \<and> length (running s) \<le> max_workers"
proof (induction rule: rtranclp_induct)
  case base
  then show ?case by (simp add: submitted_def)
next
  case (step s s')
  then show ?case using step_shape [of env s s'] by blast
qed

text \<open>Counting lines and requests.\<close>

lemma task_step_started:
  "fuel t \<noteq> 0 \<Longrightarrow> task_step env filename t w = (t', w') \<Longrightarrow>
   count_list (stdout w') (Starting g) + (if filename = g then started t else 0) =
   count_list (stdout w) (Starting g) + (if filename = g then started t' else 0)"
  by (cases t) (auto simp: emit_def Let_def count_list_snoc split: sum.splits option.splits)

lemma task_step_requested:
  "fuel t \<noteq> 0 \<Longrightarrow> task_step env filename t w = (t', w') \<Longrightarrow>
   count_list (requests w') (BASE_URL @ g) + (if filename = g then requested t else 0) =
   count_list (requests w) (BASE_URL @ g) + (if filename = g then requested t' else 0)"
  by (cases t) (auto simp: emit_def Let_def count_list_snoc split: sum.splits option.splits)

lemma task_step_resolved:
  "fuel t \<noteq> 0 \<Longrightarrow> task_step env filename t w = (t', w') \<Longrightarrow>
   length (filter (is_result g) (stdout w')) + (if filename = g then resolved t else 0) =
   length (filter (is_result g) (stdout w)) + (if filename = g then resolved t' else 0)"
  by (cases t) (auto simp: emit_def Let_def split: sum.splits option.splits)

lemma step_tally:
  assumes first: "h AtPrintStart = 0" and last: "\<And>b. h (Returned b) = 1"
    and own: "\<And>t filename w t' w'. fuel t \<noteq> 0 \<Longrightarrow> task_step env filename t w = (t', w') \<Longrightarrow>
       c w' + (if filename = g then h t else 0) = c w + (if filename = g then h t' else 0)"
    and final: "\<And>w. c (emit AllCompleted w) = c w"
  shows "step env s s' \<Longrightarrow> c (os s) = a + tally h g s \<Longrightarrow> c (os s') = a + tally h g s'"
proof (induction rule: step.induct)
  case (take_item s filename rest)
  then show ?case by (simp add: tally_def first)
next
  case (statement i s filename t t' w')
  let ?h = "\<lambda>(filename, t). if filename = g then h t else (0 :: nat)"
  have "sum_list (map ?h ((running s)[i := (filename, t')])) + ?h (running s ! i) =
        sum_list (map ?h (running s)) + ?h (filename, t')"
    using statement by (intro sum_list_map_update)
  moreover have "c w' + ?h (filename, t) = c (os s) + ?h (filename, t')"
    using own [of t filename "os s" t' w'] statement by simp
  ultimately show ?case using statement by (simp add: tally_def)
next
  case (resolve i s filename b)
  let ?h = "\<lambda>(filename, t). if filename = g then h t else (0 :: nat)"
  have "sum_list (map ?h (take i (running s) @ drop (Suc i) (running s))) + ?h (running s ! i) =
        sum_list (map ?h (running s))"
    using resolve by (intro sum_list_map_remove)
  then show ?case using resolve by (auto simp: tally_def last count_list_snoc split: if_splits)
next
  case (leave_with s)
  then show ?case by (simp add: tally_def final)
qed

lemma reach_tally:
  assumes first: "h AtPrintStart = 0" and last: "\<And>b. h (Returned b) = 1"
    and own: "\<And>t filename w t' w'. fuel t \<noteq> 0 \<Longrightarrow> task_step env filename t w = (t', w') \<Longrightarrow>
       c w' + (if filename = g then h t else 0) = c w + (if filename = g then h t' else 0)"
    and final: "\<And>w. c (emit AllCompleted w) = c w"
  shows "(step env)\<^sup>*\<^sup>* (submitted names w0) s \<Longrightarrow> c (os s) = c w0 + tally h g s"
proof (induction rule: rtranclp_induct)
  case base
  then show ?case by (simp add: submitted_def tally_def)
next
  case (step s s')
  then show ?case using step_tally [of h env c g s s' "c w0", OF first last own final] by blast
qed

lemma tally_le:
  assumes "\<And>t. h t \<le> 1"
  shows "tally h g s \<le> count_list (map fst (running s)) g + count_list (map fst (futures s)) g"
proof -
  have "sum_list (map (\<lambda>(filename, t). if filename = g then h t else 0) xs)
        \<le> count_list (map fst xs) g" for xs
  proof (induction xs)
    case Nil
    then show ?case by simp
  next
    case (Cons x xs)
    obtain f t where "x = (f, t)" by (cases x)
    with Cons assms [of t] show ?case by auto
  qed
  then show ?thesis by (simp add: tally_def)
qed

lemma join_OUTPUT_DIR: "take 1 filename \<noteq> ''/'' \<Longrightarrow> join OUTPUT_DIR filename = ''./'' @ filename"
  by (simp add: join_def OUTPUT_DIR_def)

lemma join_inj:
  "take 1 f \<noteq> ''/'' \<Longrightarrow> take 1 g \<noteq> ''/'' \<Longrightarrow> join OUTPUT_DIR f = join OUTPUT_DIR g \<Longrightarrow> f = g"
  by (simp add: join_OUTPUT_DIR)

lemma task_step_own_frame:
  "disk w (join OUTPUT_DIR filename) = disk w' (join OUTPUT_DIR filename) \<Longrightarrow>
   fst (task_step env filename t w) = fst (task_step env filename t w')
   \<and> disk (snd (task_step env filename t w)) (join OUTPUT_DIR filename) =
     disk (snd (task_step env filename t w')) (join OUTPUT_DIR filename)"
  by (cases t) (auto simp: emit_def Let_def split: sum.splits option.splits)

lemma task_step_other_frame:
  "p \<noteq> join OUTPUT_DIR filename \<Longrightarrow> disk (snd (task_step env filename t w)) p = disk w p"
  by (cases t) (auto simp: emit_def Let_def split: sum.splits option.splits)

lemma outcome_frame:
  "disk w (join OUTPUT_DIR filename) = disk w' (join OUTPUT_DIR filename) \<Longrightarrow>
   outcome env filename t w = outcome env filename t w'"
proof (induction "fuel t" arbitrary: t w w' rule: less_induct)
  case less
  show ?case
  proof (cases "fuel t = 0")
    case True
    then obtain b where "t = Returned b" using fuel_0_iff by blast
    with less.prems show ?thesis by (simp add: outcome_def)
  next
    case False
    obtain t1 w1 where s1: "task_step env filename t w = (t1, w1)"
      by (cases "task_step env filename t w")
    obtain t2 w2 where s2: "task_step env filename t w' = (t2, w2)"
      by (cases "task_step env filename t w'")
    from task_step_own_frame [OF less.prems, of env t] s1 s2
    have same: "t1 = t2" "disk w1 (join OUTPUT_DIR filename) = disk w2 (join OUTPUT_DIR filename)"
      by simp_all
    have "fuel t1 < fuel t" using task_step_fuel [OF False, of env filename w] s1 by simp
    from less.hyps [OF this same(2)] same(1)
    have "outcome env filename t1 w1 = outcome env filename t2 w2" by simp
    moreover have "outcome env filename t w = outcome env filename t1 w1"
      using finish_step [OF False s1] by (simp add: outcome_def)
    moreover have "outcome env filename t w' = outcome env filename t2 w2"
      using finish_step [OF False s2] by (simp add: outcome_def)
    ultimately show ?thesis by simp
  qed
qed

lemma step_names_of: "step env s s' \<Longrightarrow> count_list (names_of s') g = count_list (names_of s) g"
  using step_conserves [of env s s' g] by (simp add: names_of_def count_list_append)

lemma reach_names_of:
  "(step env)\<^sup>*\<^sup>* (submitted names w) s \<Longrightarrow> count_list (names_of s) g = count_list names g"
  using reach_conserves [of env "submitted names w" s g]
  by (simp add: names_of_def count_list_append submitted_def)

lemma distinct_count_le_1: "distinct xs \<longleftrightarrow> (\<forall>x. count_list xs x \<le> 1)"
proof (induction xs)
  case Nil
  then show ?case by simp
next
  case (Cons a xs)
  show ?case
  proof
    assume d: "distinct (a # xs)"
    then have "count_list xs a = 0" by (simp add: count_list_0_iff)
    with d Cons show "\<forall>x. count_list (a # xs) x \<le> 1" by simp
  next
    assume c: "\<forall>x. count_list (a # xs) x \<le> 1"
    then have "count_list (a # xs) a \<le> 1" by blast
    then have "a \<notin> set xs" by (simp add: count_list_0_iff)
    moreover have "count_list xs x \<le> 1" for x
      using c [rule_format, of x] by (simp split: if_splits)
    ultimately show "distinct (a # xs)" using Cons by simp
  qed
qed

lemma reach_distinct:
  assumes "(step env)\<^sup>*\<^sup>* (submitted names w) s" "distinct names"
  shows "distinct (names_of s)" and "set (names_of s) = set names"
proof -
  have c: "count_list (names_of s) g = count_list names g" for g
    using assms(1) by (rule reach_names_of)
  show "set (names_of s) = set names"
  proof (rule set_eqI)
    fix g
    show "g \<in> set (names_of s) \<longleftrightarrow> g \<in> set names"
      using c [of g] count_list_0_iff [of "names_of s" g] count_list_0_iff [of names g] by arith
  qed
  then show "distinct (names_of s)"
    using assms(2) c by (simp add: distinct_count_le_1)
qed

lemma step_isolated:
  assumes st: "step env s s'"
    and iso: "isolated env w0 s"
    and dist: "distinct (names_of s)"
    and rel: "\<forall>filename \<in> set (names_of s). take 1 filename \<noteq> ''/''"
  shows "isolated env w0 s'"
  using st iso dist rel
proof (induction rule: step.induct)
  case (take_item s filename rest)
  then show ?case by (auto simp: isolated_def)
next
  case (statement i s filename t t' w')
  have f_in: "(filename, t) \<in> set (running s)"
    using statement.hyps(1,2) by (metis nth_mem)
  have f_name: "filename \<in> set (names_of s)"
    using f_in by (force simp: names_of_def)
  have w': "w' = snd (task_step env filename t (os s))" using statement.hyps(4) by simp
  have other: "outcome env g tg w' = outcome env g tg (os s)"
    if "g \<in> set (names_of s)" "g \<noteq> filename" for g tg
  proof -
    have "join OUTPUT_DIR g \<noteq> join OUTPUT_DIR filename"
      using that f_name statement.prems(3) join_inj [of g filename] by blast
    then have "disk w' (join OUTPUT_DIR g) = disk (os s) (join OUTPUT_DIR g)"
      unfolding w' by (rule task_step_other_frame)
    then show ?thesis by (rule outcome_frame)
  qed
  have own: "outcome env filename t' w' = outcome env filename t (os s)"
    using finish_step [OF statement.hyps(3,4)] by (simp add: outcome_def)
  have dq: "filename \<notin> set (queue s)" and df: "filename \<notin> fst ` set (futures s)"
    and dr: "distinct (map fst (running s))"
    using statement.prems(2) f_in by (force simp: names_of_def)+
  have q: "outcome env g AtPrintStart w' = outcome env g AtPrintStart w0"
    if "g \<in> set (queue s)" for g
  proof -
    have "g \<noteq> filename" using that dq by blast
    moreover have "g \<in> set (names_of s)" using that by (simp add: names_of_def)
    ultimately show ?thesis using other that statement.prems(1) by (simp add: isolated_def)
  qed
  have fu: "outcome env g (Returned b) w' = outcome env g AtPrintStart w0"
    if "(g, b) \<in> set (futures s)" for g b
  proof -
    have "g \<noteq> filename" using that df by force
    moreover have "g \<in> set (names_of s)" using that by (force simp: names_of_def)
    ultimately show ?thesis using other that statement.prems(1) by (force simp: isolated_def)
  qed
  have r: "outcome env g tg w' = outcome env g AtPrintStart w0"
    if "(g, tg) \<in> set ((running s)[i := (filename, t')])" for g tg
  proof -
    from that obtain j where j: "j < length (running s)"
      "(running s)[i := (filename, t')] ! j = (g, tg)"
      by (auto simp: in_set_conv_nth)
    show ?thesis
    proof (cases "j = i")
      case True
      with j have "g = filename" "tg = t'" by simp_all
      with own f_in statement.prems(1) show ?thesis by (force simp: isolated_def)
    next
      case False
      with j have old: "running s ! j = (g, tg)" by simp
      then have g_in: "(g, tg) \<in> set (running s)" using j(1) by (metis nth_mem)
      have "g \<noteq> filename"
      proof
        assume "g = filename"
        then have "map fst (running s) ! j = map fst (running s) ! i"
          using old statement.hyps(1,2) j(1) by simp
        then have "j = i"
          using nth_eq_iff_index_eq [OF dr, of j i] j(1) statement.hyps(1) by simp
        with False show False by simp
      qed
      moreover have "g \<in> set (names_of s)" using g_in by (force simp: names_of_def)
      ultimately show ?thesis using other g_in statement.prems(1) by (force simp: isolated_def)
    qed
  qed
  show ?case using q r fu by (auto simp: isolated_def)
next
  case (resolve i s filename b)
  have "(filename, Returned b) \<in> set (running s)"
    using resolve.hyps by (metis nth_mem)
  moreover have "set (take i (running s) @ drop (Suc i) (running s)) \<subseteq> set (running s)"
    using set_take_subset [of i "running s"] set_drop_subset [of "Suc i" "running s"] by auto
  ultimately show ?case using resolve.prems(1) by (auto simp: isolated_def)
next
  case (leave_with s)
  have "outcome env g t (emit AllCompleted (os s)) = outcome env g t (os s)" for g t
    by (rule outcome_frame) (simp add: emit_def)
  with leave_with.prems(1) show ?case by (simp add: isolated_def)
qed

lemma reach_isolated:
  assumes "(step env)\<^sup>*\<^sup>* (submitted names w0) s" "distinct names"
    "\<forall>filename \<in> set names. take 1 filename \<noteq> ''/''"
  shows "isolated env w0 s"
  using assms(1)
proof (induction rule: rtranclp_induct)
  case base
  then show ?case by (simp add: isolated_def submitted_def)
next
  case (step s s')
  from reach_distinct [OF step.hyps(1) assms(2)] assms(3)
  show ?case using step_isolated [OF step.hyps(2) step.IH] by blast
qed

lemma FILES_distinct: "distinct FILES"
  by (simp add: FILES_def)

lemma FILES_relative: "\<forall>filename \<in> set FILES. take 1 filename \<noteq> ''/''"
  by (simp add: FILES_def)

lemma main_start_Inr:
  assumes "main_start env w = Inr s0"
  obtains w0 where "s0 = submitted FILES w0" "disk w0 = disk w" "requests w0 = requests w"
    "\<And>g. count_list (stdout w0) (Starting g) = count_list (stdout w) (Starting g)"
    "\<And>g. filter (is_result g) (stdout w0) = filter (is_result g) (stdout w)"
    "count_list (stdout w0) AllCompleted = count_list (stdout w) AllCompleted"
proof (cases "path_exists w OUTPUT_DIR")
  case True
  with assms have "s0 = submitted FILES (emit (Downloading (length FILES) BASE_URL) w)"
    by (simp add: main_start_def)
  then show ?thesis by (rule that) (simp_all add: emit_def)
next
  case False
  with assms have "s0 = submitted FILES
      (emit (Downloading (length FILES) BASE_URL)
        (emit (Created OUTPUT_DIR) (w\<lparr>dirs := insert OUTPUT_DIR (dirs w)\<rparr>)))"
    by (simp add: main_start_def split: option.splits)
  then show ?thesis by (rule that) (simp_all add: emit_def)
qed

lemma remaining_submitted: "remaining (submitted names w) = 8 * length names + 1"
  by (simp add: remaining_def submitted_def)

lemma task_step_AllCompleted:
  "count_list (stdout (snd (task_step env filename t w))) AllCompleted =
   count_list (stdout w) AllCompleted"
  by (cases t) (auto simp: emit_def Let_def split: sum.splits option.splits)

lemma step_AllCompleted:
  "step env s s' \<Longrightarrow>
   count_list (stdout (os s)) AllCompleted = a + (if driver s = Finished then 1 else 0) \<Longrightarrow>
   count_list (stdout (os s')) AllCompleted = a + (if driver s' = Finished then 1 else 0)"
proof (induction rule: step.induct)
  case (statement i s filename t t' w')
  then show ?case using task_step_AllCompleted [of env filename t "os s"] by simp
qed (simp_all add: emit_def)

lemma reach_AllCompleted:
  "(step env)\<^sup>*\<^sup>* (submitted names w0) s \<Longrightarrow>
   count_list (stdout (os s)) AllCompleted =
     count_list (stdout w0) AllCompleted + (if driver s = Finished then 1 else 0)"
proof (induction rule: rtranclp_induct)
  case base
  then show ?case by (simp add: submitted_def)
next
  case (step s s')
  then show ?case using step_AllCompleted by blast
qed

lemma download_file_other_frame:
  "p \<noteq> join OUTPUT_DIR filename \<Longrightarrow> disk (snd (download_file env filename w)) p = disk w p"
  by (simp add: download_file_def try_body_def emit_def Let_def
      split: sum.splits option.splits prod.splits)

lemma finished_results:
  assumes reach: "(step env)\<^sup>*\<^sup>* (submitted names w0) s"
    and dist: "distinct names"
    and rel: "\<forall>filename \<in> set names. take 1 filename \<noteq> ''/''"
    and fin: "driver s = Finished"
    and mem: "filename \<in> set names"
  shows "\<exists>b. (filename, b) \<in> set (futures s)
    \<and> fst (download_file env filename w0) = Inr b
    \<and> disk (os s) (join OUTPUT_DIR filename) =
      disk (snd (download_file env filename w0)) (join OUTPUT_DIR filename)"
proof -
  from reach_shape [OF reach] fin have empty: "queue s = []" "running s = []" by simp_all
  from reach_distinct(2) [OF reach dist] mem empty
  have "filename \<in> fst ` set (futures s)" by (simp add: names_of_def)
  then obtain b where b: "(filename, b) \<in> set (futures s)" by force
  from reach_isolated [OF reach dist rel] b
  have "outcome env filename (Returned b) (os s) = outcome env filename AtPrintStart w0"
    by (force simp: isolated_def)
  then have "fst (download_file env filename w0) = Inr b
    \<and> disk (os s) (join OUTPUT_DIR filename) =
      disk (snd (download_file env filename w0)) (join OUTPUT_DIR filename)"
    by (simp add: outcome_def download_file_finish split: prod.splits)
  with b show ?thesis by blast
qed

lemma download_file_frame:
  "disk w = disk w' \<Longrightarrow>
   fst (download_file env filename w) = fst (download_file env filename w')
   \<and> disk (snd (download_file env filename w)) = disk (snd (download_file env filename w'))"
  by (simp add: download_file_def try_body_def emit_def Let_def
      split: sum.splits option.splits prod.splits)

subsection \<open>The claims about the fetcher\<close>

text \<open>
  Claim C5. A call of \<^verbatim>\<open>download_file\<close> always returns: when the body of its \<^verbatim>\<open>try\<close>
  raises, the call prints the failure line with the file name and the error text and
  returns \<open>False\<close>. A call changes no file but its own destination. In \<^verbatim>\<open>main\<close>, once the
  work items are submitted, every run of the pool is at most \<open>8 * length FILES + 1\<close>
  steps long, a state from which no step is possible is one where the main thread has
  finished, and then the last line printed is the completion line and every file of
  \<open>FILES\<close> has its future resolved with the result, and its destination file with the
  content, that a call alone would have given, whatever happened to the other files.
\<close>

theorem failures_are_contained:
  "(\<exists>b. fst (download_file env filename w) = Inr b)
   \<and> (fst (try_body env filename (BASE_URL @ filename) (join OUTPUT_DIR filename) w) = Inl e \<longrightarrow>
      download_file env filename w =
        (Inr False,
         emit (Failed filename e)
           (snd (try_body env filename (BASE_URL @ filename) (join OUTPUT_DIR filename) w))))
   \<and> (\<forall>p. p \<noteq> join OUTPUT_DIR filename \<longrightarrow> disk (snd (download_file env filename w)) p = disk w p)
   \<and> (main_start env w = Inr s0 \<and> (step env ^^ n) s0 s \<longrightarrow>
      n \<le> 8 * length FILES + 1
      \<and> (driver s = Finished \<or> (\<exists>s'. step env s s'))
      \<and> (driver s = Finished \<longrightarrow>
           stdout (os s) \<noteq> [] \<and> last (stdout (os s)) = AllCompleted
           \<and> (\<forall>f \<in> set FILES. \<exists>b. (f, b) \<in> set (futures s)
                \<and> fst (download_file env f w) = Inr b
                \<and> disk (os s) (join OUTPUT_DIR f) =
                  disk (snd (download_file env f w)) (join OUTPUT_DIR f))))"
proof -
  have returns: "\<exists>b. fst (download_file env filename w) = Inr b"
    by (auto simp: download_file_def Let_def split: prod.splits sum.splits)
  have caught: "download_file env filename w =
        (Inr False,
         emit (Failed filename e)
           (snd (try_body env filename (BASE_URL @ filename) (join OUTPUT_DIR filename) w)))"
    if "fst (try_body env filename (BASE_URL @ filename) (join OUTPUT_DIR filename) w) = Inl e"
    using that by (auto simp: download_file_def Let_def split: prod.splits sum.splits)
  have frame: "\<forall>p. p \<noteq> join OUTPUT_DIR filename \<longrightarrow>
      disk (snd (download_file env filename w)) p = disk w p"
    by (simp add: download_file_other_frame)
  have batch: "n \<le> 8 * length FILES + 1
      \<and> (driver s = Finished \<or> (\<exists>s'. step env s s'))
      \<and> (driver s = Finished \<longrightarrow>
           stdout (os s) \<noteq> [] \<and> last (stdout (os s)) = AllCompleted
           \<and> (\<forall>f \<in> set FILES. \<exists>b. (f, b) \<in> set (futures s)
                \<and> fst (download_file env f w) = Inr b
                \<and> disk (os s) (join OUTPUT_DIR f) =
                  disk (snd (download_file env f w)) (join OUTPUT_DIR f)))"
    if start: "main_start env w = Inr s0" and run: "(step env ^^ n) s0 s"
  proof -
    from start obtain w0 where w0: "s0 = submitted FILES w0" "disk w0 = disk w"
      by (rule main_start_Inr) blast
    have reach: "(step env)\<^sup>*\<^sup>* (submitted FILES w0) s"
      using run w0(1) by (auto intro: relpowp_imp_rtranclp)
    have "n \<le> 8 * length FILES + 1"
      using steps_bounded [OF run] w0(1) by (simp add: remaining_submitted)
    moreover have "driver s = Finished \<or> (\<exists>s'. step env s s')"
      using progress [of s env] by (cases "driver s") simp_all
    moreover have "stdout (os s) \<noteq> [] \<and> last (stdout (os s)) = AllCompleted"
      if "driver s = Finished"
      using reach_shape [OF reach] that by simp
    moreover have "\<exists>b. (f, b) \<in> set (futures s)
                \<and> fst (download_file env f w) = Inr b
                \<and> disk (os s) (join OUTPUT_DIR f) =
                  disk (snd (download_file env f w)) (join OUTPUT_DIR f)"
      if "driver s = Finished" "f \<in> set FILES" for f
      using finished_results [OF reach FILES_distinct FILES_relative that]
        download_file_frame [OF w0(2), of env f] by simp
    ultimately show ?thesis by blast
  qed
  from returns caught frame batch show ?thesis by blast
qed

theorem failures_are_contained_witness:
  "\<exists>s0 s n.
     fst (try_body
            \<lparr>urlopen = (\<lambda>u. Inl ''offline''), open_wb = (\<lambda>p. None),
              write_bytes = (\<lambda>p d. None), makedirs = (\<lambda>p. None)\<rparr>
            ''tree-sitter-c.wasm'' (BASE_URL @ ''tree-sitter-c.wasm'')
            (join OUTPUT_DIR ''tree-sitter-c.wasm'')
            \<lparr>disk = Map.empty, dirs = {''.''}, stdout = [], requests = []\<rparr>) = Inl ''offline''
     \<and> ''./other'' \<noteq> join OUTPUT_DIR ''tree-sitter-c.wasm''
     \<and> main_start
          \<lparr>urlopen = (\<lambda>u. Inl ''offline''), open_wb = (\<lambda>p. None),
            write_bytes = (\<lambda>p d. None), makedirs = (\<lambda>p. None)\<rparr>
          \<lparr>disk = Map.empty, dirs = {''.''}, stdout = [], requests = []\<rparr> = Inr s0
     \<and> (step \<lparr>urlopen = (\<lambda>u. Inl ''offline''), open_wb = (\<lambda>p. None),
               write_bytes = (\<lambda>p d. None), makedirs = (\<lambda>p. None)\<rparr> ^^ n) s0 s
     \<and> driver s = Finished
     \<and> ''tree-sitter-c.wasm'' \<in> set FILES
     \<and> n \<le> 8 * length FILES + 1
     \<and> last (stdout (os s)) = AllCompleted
     \<and> (''tree-sitter-c.wasm'', False) \<in> set (futures s)
     \<and> disk (os s) (join OUTPUT_DIR ''tree-sitter-c.wasm'') = None"
proof -
  let ?env = "\<lparr>urlopen = (\<lambda>u. Inl ''offline''), open_wb = (\<lambda>p. None),
               write_bytes = (\<lambda>p d. None), makedirs = (\<lambda>p. None)\<rparr>"
  let ?w = "\<lparr>disk = Map.empty, dirs = {''.''}, stdout = [], requests = []\<rparr>"
  let ?f = "''tree-sitter-c.wasm''"
  let ?s0 = "submitted FILES (emit (Downloading (length FILES) BASE_URL) ?w)"
  have raised: "fst (try_body ?env ?f (BASE_URL @ ?f) (join OUTPUT_DIR ?f) ?w) = Inl ''offline''"
    by (simp add: try_body_def Let_def)
  have other: "''./other'' \<noteq> join OUTPUT_DIR ?f"
    by (simp add: join_def OUTPUT_DIR_def)
  have start: "main_start ?env ?w = Inr ?s0"
    by (simp add: main_start_def path_exists_def OUTPUT_DIR_def)
  obtain s where "(step ?env)\<^sup>*\<^sup>* ?s0 s" and fin: "driver s = Finished"
    using can_finish [of ?env ?s0] by blast
  then obtain n where run: "(step ?env ^^ n) ?s0 s"
    by (auto simp: rtranclp_power)
  have mem: "?f \<in> set FILES" by (simp add: FILES_def)
  have alone: "download_file ?env ?f ?w =
      (Inr False, \<lparr>disk = Map.empty, dirs = {''.''},
                   stdout = [Starting ?f, Failed ?f ''offline''], requests = [BASE_URL @ ?f]\<rparr>)"
    by (simp add: download_file_def try_body_def emit_def Let_def)
  note inst = failures_are_contained [of ?env ?f ?w "''offline''" ?s0 n s]
  from inst start run fin mem
  have bound: "n \<le> 8 * length FILES + 1" and lastline: "last (stdout (os s)) = AllCompleted"
    and "\<exists>b. (?f, b) \<in> set (futures s) \<and> fst (download_file ?env ?f ?w) = Inr b
        \<and> disk (os s) (join OUTPUT_DIR ?f) = disk (snd (download_file ?env ?f ?w)) (join OUTPUT_DIR ?f)"
    by blast+
  then have "(?f, False) \<in> set (futures s)" "disk (os s) (join OUTPUT_DIR ?f) = None"
    using alone by auto
  with raised other start run fin mem bound lastline show ?thesis by blast
qed

text \<open>
  Claim C6. In every state that \<^verbatim>\<open>main\<close> can reach after submitting the work items, no
  file name has had more requests or first lines than it has entries in \<open>FILES\<close>, and the
  completion line has been printed exactly when the main thread has finished. When it
  has, nothing is queued or running, every entry of \<open>FILES\<close> has one resolved future, and
  for every file name the requests made, the first lines and the result lines printed
  are as many as its entries in \<open>FILES\<close>: one for each name of the list, which has no
  duplicates.
\<close>

theorem one_attempt_per_entry:
  "(main_start env w = Inr s0 \<and> (step env)\<^sup>*\<^sup>* s0 s \<longrightarrow>
      count_list (requests (os s)) (BASE_URL @ g) \<le> count_list (requests w) (BASE_URL @ g) + count_list FILES g
      \<and> count_list (stdout (os s)) (Starting g) \<le> count_list (stdout w) (Starting g) + count_list FILES g
      \<and> count_list (stdout (os s)) AllCompleted =
          count_list (stdout w) AllCompleted + (if driver s = Finished then 1 else 0)
      \<and> (driver s = Finished \<longrightarrow>
           queue s = [] \<and> running s = []
           \<and> count_list (map fst (futures s)) g = count_list FILES g
           \<and> count_list (requests (os s)) (BASE_URL @ g) =
               count_list (requests w) (BASE_URL @ g) + count_list FILES g
           \<and> count_list (stdout (os s)) (Starting g) =
               count_list (stdout w) (Starting g) + count_list FILES g
           \<and> length (filter (is_result g) (stdout (os s))) =
               length (filter (is_result g) (stdout w)) + count_list FILES g))
   \<and> count_list FILES g = (if g \<in> set FILES then 1 else 0)"
proof -
  have once: "count_list FILES g = (if g \<in> set FILES then 1 else 0)"
  proof -
    have "count_list FILES g \<le> 1" using FILES_distinct distinct_count_le_1 [of FILES] by blast
    then show ?thesis using count_list_0_iff [of FILES g] by (cases "g \<in> set FILES") auto
  qed
  have main: "count_list (requests (os s)) (BASE_URL @ g) \<le> count_list (requests w) (BASE_URL @ g) + count_list FILES g
      \<and> count_list (stdout (os s)) (Starting g) \<le> count_list (stdout w) (Starting g) + count_list FILES g
      \<and> count_list (stdout (os s)) AllCompleted =
          count_list (stdout w) AllCompleted + (if driver s = Finished then 1 else 0)
      \<and> (driver s = Finished \<longrightarrow>
           queue s = [] \<and> running s = []
           \<and> count_list (map fst (futures s)) g = count_list FILES g
           \<and> count_list (requests (os s)) (BASE_URL @ g) =
               count_list (requests w) (BASE_URL @ g) + count_list FILES g
           \<and> count_list (stdout (os s)) (Starting g) =
               count_list (stdout w) (Starting g) + count_list FILES g
           \<and> length (filter (is_result g) (stdout (os s))) =
               length (filter (is_result g) (stdout w)) + count_list FILES g)"
    if start: "main_start env w = Inr s0" and run: "(step env)\<^sup>*\<^sup>* s0 s"
  proof -
    from start obtain w0 where w0: "s0 = submitted FILES w0" "requests w0 = requests w"
      "\<And>g. count_list (stdout w0) (Starting g) = count_list (stdout w) (Starting g)"
      "\<And>g. filter (is_result g) (stdout w0) = filter (is_result g) (stdout w)"
      "count_list (stdout w0) AllCompleted = count_list (stdout w) AllCompleted"
      by (rule main_start_Inr) blast
    have reach: "(step env)\<^sup>*\<^sup>* (submitted FILES w0) s" using run w0(1) by simp
    have cons: "count_list (queue s) g + count_list (map fst (running s)) g
        + count_list (map fst (futures s)) g = count_list FILES g"
      using reach_conserves [OF reach, of g] by (simp add: submitted_def)
    have req: "count_list (requests (os s)) (BASE_URL @ g) =
        count_list (requests w) (BASE_URL @ g) + tally requested g s"
      using reach_tally [of requested env "\<lambda>w. count_list (requests w) (BASE_URL @ g)" g FILES w0 s,
          OF _ _ _ _ reach] task_step_requested [of _ env _ _ _ _ g] w0(2)
      by (simp add: emit_def)
    have sta: "count_list (stdout (os s)) (Starting g) =
        count_list (stdout w) (Starting g) + tally started g s"
      using reach_tally [of started env "\<lambda>w. count_list (stdout w) (Starting g)" g FILES w0 s,
          OF _ _ _ _ reach] task_step_started [of _ env _ _ _ _ g] w0(3)
      by (simp add: emit_def)
    have res: "length (filter (is_result g) (stdout (os s))) =
        length (filter (is_result g) (stdout w)) + tally resolved g s"
      using reach_tally [of resolved env "\<lambda>w. length (filter (is_result g) (stdout w))" g FILES w0 s,
          OF _ _ _ _ reach] task_step_resolved [of _ env _ _ _ _ g] w0(4)
      by (simp add: emit_def)
    have "requested t \<le> 1" for t by (cases t) simp_all
    then have le_req: "tally requested g s \<le> count_list FILES g"
      using tally_le [of requested g s] cons by simp
    have "started t \<le> 1" for t by (cases t) simp_all
    then have le_sta: "tally started g s \<le> count_list FILES g"
      using tally_le [of started g s] cons by simp
    have fin: "tally h g s = count_list (map fst (futures s)) g
        \<and> count_list (map fst (futures s)) g = count_list FILES g \<and> queue s = [] \<and> running s = []"
      if "driver s = Finished" for h
      using reach_shape [OF reach] that cons by (simp add: tally_def)
    have all: "count_list (stdout (os s)) AllCompleted =
          count_list (stdout w) AllCompleted + (if driver s = Finished then 1 else 0)"
      using reach_AllCompleted [OF reach] w0(5) by simp
    show ?thesis
      using req sta res le_req le_sta all fin [of requested] fin [of started] fin [of resolved]
      by simp
  qed
  from main once show ?thesis by blast
qed

theorem one_attempt_per_entry_witness:
  "\<exists>s0 s.
     main_start
       \<lparr>urlopen = (\<lambda>u. Inl ''offline''), open_wb = (\<lambda>p. None),
         write_bytes = (\<lambda>p d. None), makedirs = (\<lambda>p. None)\<rparr>
       \<lparr>disk = Map.empty, dirs = {''.''}, stdout = [], requests = []\<rparr> = Inr s0
     \<and> (step \<lparr>urlopen = (\<lambda>u. Inl ''offline''), open_wb = (\<lambda>p. None),
               write_bytes = (\<lambda>p d. None), makedirs = (\<lambda>p. None)\<rparr>)\<^sup>*\<^sup>* s0 s
     \<and> driver s = Finished
     \<and> ''tree-sitter-c.wasm'' \<in> set FILES
     \<and> queue s = [] \<and> running s = []
     \<and> count_list (map fst (futures s)) ''tree-sitter-c.wasm'' = 1
     \<and> count_list (requests (os s)) (BASE_URL @ ''tree-sitter-c.wasm'') = 1
     \<and> count_list (stdout (os s)) (Starting ''tree-sitter-c.wasm'') = 1
     \<and> length (filter (is_result ''tree-sitter-c.wasm'') (stdout (os s))) = 1
     \<and> count_list (stdout (os s)) AllCompleted = 1"
proof -
  let ?env = "\<lparr>urlopen = (\<lambda>u. Inl ''offline''), open_wb = (\<lambda>p. None),
               write_bytes = (\<lambda>p d. None), makedirs = (\<lambda>p. None)\<rparr>"
  let ?w = "\<lparr>disk = Map.empty, dirs = {''.''}, stdout = [], requests = []\<rparr>"
  let ?f = "''tree-sitter-c.wasm''"
  let ?s0 = "submitted FILES (emit (Downloading (length FILES) BASE_URL) ?w)"
  have start: "main_start ?env ?w = Inr ?s0"
    by (simp add: main_start_def path_exists_def OUTPUT_DIR_def)
  obtain s where run: "(step ?env)\<^sup>*\<^sup>* ?s0 s" and fin: "driver s = Finished"
    using can_finish [of ?env ?s0] by blast
  have mem: "?f \<in> set FILES" by (simp add: FILES_def)
  note inst = one_attempt_per_entry [of ?env ?w ?s0 s ?f]
  from inst start run fin mem
  have "queue s = [] \<and> running s = []
     \<and> count_list (map fst (futures s)) ?f = 1
     \<and> count_list (requests (os s)) (BASE_URL @ ?f) = 1
     \<and> count_list (stdout (os s)) (Starting ?f) = 1
     \<and> length (filter (is_result ?f) (stdout (os s))) = 1
     \<and> count_list (stdout (os s)) AllCompleted = 1"
    by simp
  with start run fin mem show ?thesis by blast
qed

end
